theory Spec2Isabelle
  imports Complex_Main
begin

section \<open>RateLimiter (backend/middleware/rateLimiter.js)\<close>

text \<open>
  Numbers are IEEE 754 double-precision values.  Timestamps are the integer millisecond
  counts returned by \<open>Date.now()\<close>, and \<open>windowMs\<close> and \<open>maxRequests\<close> are whole
  numbers; whole numbers of magnitude up to \<open>2 ^ 53\<close> are doubles, and their sums
  and differences are exact while they stay in that range.  A division and a
  multiplication each round their exact result to the nearest double, ties to even:
  \<open>fl\<close> below, on rationals, with the 53-bit significand and the subnormal spacing
  \<open>2 ^ -1074\<close>.  Results of magnitude \<open>2 ^ 1024\<close> and more (\<open>Infinity\<close> in the
  program) are outside the model.  One call of \<open>consume\<close> reads the clock once per
  path (the first-observation path uses the reading of \<open>consume\<close>, the other path the
  reading of \<open>refillTokens\<close>), so a single \<open>now\<close> is passed.
\<close>

text \<open>The number of binary digits of a positive whole number.\<close>

function bit_length :: "int \<Rightarrow> int" where
  "bit_length n = (if n \<le> 0 then 0 else 1 + bit_length (n div 2))"
  by pat_completeness auto
termination
  by (relation "measure nat") auto

definition pow2 :: "int \<Rightarrow> rat" where
  "pow2 e = (if 0 \<le> e then 2 ^ nat e else 1 / 2 ^ nat (- e))"

text \<open>The binary exponent of a non-zero number: \<open>2 ^ expo x \<le> \<bar>x\<bar> < 2 ^ (expo x + 1)\<close>.\<close>

definition expo :: "rat \<Rightarrow> int" where
  "expo x =
     (let e0 = bit_length (fst (quotient_of \<bar>x\<bar>)) - bit_length (snd (quotient_of \<bar>x\<bar>))
      in if pow2 e0 \<le> \<bar>x\<bar> then e0 else e0 - 1)"

definition round_half_even :: "rat \<Rightarrow> int" where
  "round_half_even y =
     (let f = \<lfloor>y\<rfloor>; d = y - of_int f
      in if d < 1 / 2 then f
         else if 1 / 2 < d then f + 1
         else if even f then f else f + 1)"

text \<open>Rounding to the nearest double.\<close>

definition fl :: "rat \<Rightarrow> rat" where
  "fl x =
     (if x = 0 then 0
      else (let u = pow2 (max (expo x - 52) (- 1074))
            in of_int (round_half_even (x / u)) * u))"

record bucket =
  tokens :: int
  lastRefill :: int
  firstRequest :: int

record RateLimiter =
  windowMs :: int
  maxRequests :: int
  buckets :: "string \<rightharpoonup> bucket"

record consume_result =
  allowed :: bool
  remaining :: int
  resetTime :: "int option"

definition RateLimiter_new :: "int option \<Rightarrow> int option \<Rightarrow> RateLimiter" where
  "RateLimiter_new optWindowMs optMaxRequests =
     \<lparr> windowMs = (case optWindowMs of None \<Rightarrow> 15 * 60 * 1000
                     | Some w \<Rightarrow> if w = 0 then 15 * 60 * 1000 else w),
       maxRequests = (case optMaxRequests of None \<Rightarrow> 100
                     | Some m \<Rightarrow> if m = 0 then 100 else m),
       buckets = Map.empty \<rparr>"

definition tokensToAdd :: "RateLimiter \<Rightarrow> int \<Rightarrow> int" where
  "tokensToAdd rl timePassed =
     \<lfloor>fl (fl (of_int timePassed / of_int (windowMs rl)) * of_int (maxRequests rl))\<rfloor>"

definition refillTokens :: "RateLimiter \<Rightarrow> int \<Rightarrow> bucket \<Rightarrow> bucket" where
  "refillTokens rl now b =
     (let timePassed = now - lastRefill b;
          toAdd = tokensToAdd rl timePassed
      in if toAdd > 0
         then b\<lparr> tokens := min (maxRequests rl) (tokens b + toAdd), lastRefill := now \<rparr>
         else b)"

definition consume :: "RateLimiter \<Rightarrow> int \<Rightarrow> string \<Rightarrow> consume_result \<times> RateLimiter" where
  "consume rl now ip =
     (case buckets rl ip of
        None \<Rightarrow>
          (let b = \<lparr> tokens = maxRequests rl - 1, lastRefill = now, firstRequest = now \<rparr>
           in (\<lparr> allowed = True, remaining = tokens b, resetTime = None \<rparr>,
               rl\<lparr> buckets := (buckets rl)(ip \<mapsto> b) \<rparr>))
      | Some b0 \<Rightarrow>
          (let b = refillTokens rl now b0
           in if tokens b > 0
              then (let b' = b\<lparr> tokens := tokens b - 1 \<rparr>
                    in (\<lparr> allowed = True, remaining = tokens b', resetTime = None \<rparr>,
                        rl\<lparr> buckets := (buckets rl)(ip \<mapsto> b') \<rparr>))
              else (\<lparr> allowed = False, remaining = 0,
                      resetTime = Some (lastRefill b + windowMs rl) \<rparr>,
                    rl\<lparr> buckets := (buckets rl)(ip \<mapsto> b) \<rparr>)))"

text \<open>A sequence of \<open>consume\<close> calls for one key, at the given clock readings.\<close>

fun consume_all :: "RateLimiter \<Rightarrow> string \<Rightarrow> int list \<Rightarrow> consume_result list \<times> RateLimiter" where
  "consume_all rl ip [] = ([], rl)"
| "consume_all rl ip (t # ts) =
     (case consume rl t ip of
        (r, rl') \<Rightarrow> (case consume_all rl' ip ts of (rs, rl'') \<Rightarrow> (r # rs, rl'')))"

definition count_allowed :: "consume_result list \<Rightarrow> nat" where
  "count_allowed rs = length (filter allowed rs)"

text \<open>The limiter of the test suite, and a bucket with no tokens left.\<close>

definition limiter5 :: RateLimiter where
  "limiter5 = RateLimiter_new (Some 1000) (Some 5)"

definition drained :: bucket where
  "drained = \<lparr> tokens = 0, lastRefill = 0, firstRequest = 0 \<rparr>"

section \<open>DataGenerator (services/dataGenerator.js)\<close>

text \<open>
  \<open>Math.random()\<close> is an input: each call of \<open>generateRecord\<close> receives the three
  draws it makes (category, value, source), as rationals.  A WebSocket handle carries its
  \<open>readyState\<close> and whether its \<open>send\<close> throws.  The serialised message is
  represented by the message itself.  The timer handle \<open>this.interval\<close> is
  represented by the period it was created with.
\<close>

record metadata =
  source :: string
  batch :: int

record DataRecord =
  timestamp :: int
  val :: rat
  category :: "string option"
  meta :: metadata

datatype message = BatchMsg "DataRecord list" int

record ws_client =
  cid :: nat
  readyState :: nat
  sendThrows :: bool

datatype js_error = Error string

record DataGenerator =
  rate :: rat
  batchSize :: int
  isRunning :: bool
  interval :: "rat option"
  buffer :: "DataRecord list"
  totalGenerated :: int
  wsClients :: "ws_client list"
  categories :: "string list"

text \<open>
  The generator together with what it has done to its collaborators: the arguments of
  every \<open>DataRecord.createBatch\<close> call (\<open>writes\<close>), the calls still awaited
  (\<open>inflight\<close>), every \<open>broadcast\<close> call, every message a \<open>client.send\<close>
  accepted, and the \<open>console.error\<close> lines.
\<close>

record server =
  gen :: DataGenerator
  writes :: "DataRecord list list"
  inflight :: "DataRecord list list"
  broadcasts :: "message list"
  sent :: "(nat \<times> message) list"
  console_error :: "string list"

definition DataGenerator_new :: "rat option \<Rightarrow> int option \<Rightarrow> DataGenerator" where
  "DataGenerator_new optRate optBatchSize =
     \<lparr> rate = (case optRate of None \<Rightarrow> 50 | Some r \<Rightarrow> if r = 0 then 50 else r),
       batchSize = (case optBatchSize of None \<Rightarrow> 10 | Some b \<Rightarrow> if b = 0 then 10 else b),
       isRunning = False,
       interval = None,
       buffer = [],
       totalGenerated = 0,
       wsClients = [],
       categories = [''sensor'', ''metric'', ''event'', ''alert'', ''system''] \<rparr>"

definition server_new :: "rat option \<Rightarrow> int option \<Rightarrow> server" where
  "server_new optRate optBatchSize =
     \<lparr> gen = DataGenerator_new optRate optBatchSize, writes = [], inflight = [],
       broadcasts = [], sent = [], console_error = [] \<rparr>"

definition Math_round :: "rat \<Rightarrow> int" where
  "Math_round x = \<lfloor>x + 1 / 2\<rfloor>"

text \<open>Array indexing: out of range (or negative) gives \<open>undefined\<close>.\<close>

definition index :: "'a list \<Rightarrow> int \<Rightarrow> 'a option" where
  "index xs i = (if 0 \<le> i \<and> i < int (length xs) then Some (xs ! nat i) else None)"

fun decimal :: "nat \<Rightarrow> string" where
  "decimal n =
     (if n < 10 then [char_of (48 + n)]
      else decimal (n div 10) @ [char_of (48 + n mod 10)])"

definition category_value :: "string option \<Rightarrow> rat \<Rightarrow> rat" where
  "category_value c r =
     (if c = Some ''sensor'' then 20 + r * 60
      else if c = Some ''metric'' then r * 1000
      else if c = Some ''event'' then of_int \<lfloor>r * 100\<rfloor>
      else if c = Some ''alert'' then r * 10
      else if c = Some ''system'' then 50 + r * 50
      else r * 100)"

definition generateRecord :: "DataGenerator \<Rightarrow> int \<Rightarrow> rat \<Rightarrow> rat \<Rightarrow> rat \<Rightarrow> DataRecord" where
  "generateRecord g now r1 r2 r3 =
     (let c = index (categories g) \<lfloor>r1 * of_nat (length (categories g))\<rfloor>;
          v = category_value c r2
      in \<lparr> timestamp = now,
           val = of_int (Math_round (v * 100)) / 100,
           category = c,
           meta = \<lparr> source = ''generator-'' @ decimal (nat \<lfloor>r3 * 5\<rfloor>),
                    batch = \<lfloor>(of_int (totalGenerated g) :: rat) / of_int (batchSize g)\<rfloor> \<rparr> \<rparr>)"

text \<open>
  \<open>addClient\<close> also starts \<open>sendStatsToClient\<close>, which reads the database and
  sends one message to the new client only; it touches neither the set nor the buffer and
  is left out.
\<close>

definition addClient :: "ws_client \<Rightarrow> DataGenerator \<Rightarrow> DataGenerator" where
  "addClient ws g = (if ws \<in> set (wsClients g) then g else g\<lparr> wsClients := wsClients g @ [ws] \<rparr>)"

definition removeClient :: "ws_client \<Rightarrow> DataGenerator \<Rightarrow> DataGenerator" where
  "removeClient ws g = g\<lparr> wsClients := removeAll ws (wsClients g) \<rparr>"

definition client_send :: "ws_client \<Rightarrow> message \<Rightarrow> js_error + unit" where
  "client_send c m = (if sendThrows c then Inl (Error ''send failed'') else Inr ())"

text \<open>
  \<open>Set.prototype.forEach\<close>: the callback runs once for each member; an exception
  leaving the callback would leave \<open>forEach\<close>.  The callback of \<open>broadcast\<close> deletes
  at most the member it is visiting, so the members visited are those of the set at entry.
\<close>

fun forEach :: "('a \<Rightarrow> 's \<Rightarrow> js_error + 's) \<Rightarrow> 'a list \<Rightarrow> 's \<Rightarrow> js_error + 's" where
  "forEach f [] s = Inr s"
| "forEach f (x # xs) s = (case f x s of Inl e \<Rightarrow> Inl e | Inr s' \<Rightarrow> forEach f xs s')"

definition broadcast_client :: "message \<Rightarrow> ws_client \<Rightarrow> server \<Rightarrow> js_error + server" where
  "broadcast_client m client s =
     (if readyState client = 1
      then (case client_send client m of
              Inr _ \<Rightarrow> Inr (s\<lparr> sent := sent s @ [(cid client, m)] \<rparr>)
            | Inl (Error msg) \<Rightarrow>
                Inr (s\<lparr> console_error := console_error s @ [''Error broadcasting to client: '' @ msg],
                         gen := removeClient client (gen s) \<rparr>))
      else Inr s)"

definition broadcast :: "message \<Rightarrow> server \<Rightarrow> js_error + server" where
  "broadcast m s =
     forEach (broadcast_client m) (wsClients (gen s)) (s\<lparr> broadcasts := broadcasts s @ [m] \<rparr>)"

text \<open>
  \<open>processBuffer\<close> is asynchronous.  Its part before the \<open>await\<close> runs at once: it
  empties the buffer and calls \<open>DataRecord.createBatch\<close>.  Its part after the
  \<open>await\<close> runs when that call settles, with the outcome of the call.
\<close>

definition processBuffer_begin :: "server \<Rightarrow> server" where
  "processBuffer_begin s =
     (if length (buffer (gen s)) = 0 then s
      else (let records = buffer (gen s)
            in s\<lparr> gen := (gen s)\<lparr> buffer := [] \<rparr>,
                   writes := writes s @ [records],
                   inflight := inflight s @ [records] \<rparr>))"

definition processBuffer_resume :: "DataRecord list \<Rightarrow> js_error + unit \<Rightarrow> server \<Rightarrow> server" where
  "processBuffer_resume records outcome s =
     (case outcome of
        Inl (Error msg) \<Rightarrow> s\<lparr> console_error := console_error s @ [''Error processing buffer: '' @ msg] \<rparr>
      | Inr _ \<Rightarrow>
          (case broadcast (BatchMsg records (totalGenerated (gen s))) s of
             Inl (Error msg) \<Rightarrow> s\<lparr> console_error := console_error s @ [''Error processing buffer: '' @ msg] \<rparr>
           | Inr s' \<Rightarrow> s'))"

definition start :: "server \<Rightarrow> server" where
  "start s =
     (if isRunning (gen s) then s
      else s\<lparr> gen := (gen s)\<lparr> isRunning := True, interval := Some (1000 / rate (gen s)) \<rparr> \<rparr>)"

definition tick :: "int \<Rightarrow> rat \<Rightarrow> rat \<Rightarrow> rat \<Rightarrow> server \<Rightarrow> server" where
  "tick now r1 r2 r3 s =
     (let rec = generateRecord (gen s) now r1 r2 r3;
          s1 = s\<lparr> gen := (gen s)\<lparr> buffer := buffer (gen s) @ [rec],
                                   totalGenerated := totalGenerated (gen s) + 1 \<rparr> \<rparr>
      in if int (length (buffer (gen s1))) \<ge> batchSize (gen s1)
         then processBuffer_begin s1
         else s1)"

definition stop :: "server \<Rightarrow> server" where
  "stop s =
     (if \<not> isRunning (gen s) then s
      else (let s1 = s\<lparr> gen := (gen s)\<lparr> isRunning := False, interval := None \<rparr> \<rparr>
            in if length (buffer (gen s1)) > 0 then processBuffer_begin s1 else s1))"

definition setRate :: "rat \<Rightarrow> server \<Rightarrow> server" where
  "setRate newRate s =
     (let wasRunning = isRunning (gen s);
          s1 = (if wasRunning then stop s else s);
          s2 = s1\<lparr> gen := (gen s1)\<lparr> rate := newRate \<rparr> \<rparr>
      in if wasRunning then start s2 else s2)"

text \<open>
  What can happen to a server: the interval timer fires (only while a timer exists), an
  awaited \<open>createBatch\<close> call settles, or one of the methods is called.
\<close>

datatype gen_event =
    Tick int rat rat rat
  | Settled nat "js_error + unit"
  | Start
  | Stop
  | SetRate rat
  | AddClient ws_client
  | RemoveClient ws_client

fun gen_step :: "server \<Rightarrow> gen_event \<Rightarrow> server" where
  "gen_step s (Tick now r1 r2 r3) =
     (if interval (gen s) = None then s else tick now r1 r2 r3 s)"
| "gen_step s (Settled i outcome) =
     (if i < length (inflight s)
      then processBuffer_resume (inflight s ! i) outcome
             (s\<lparr> inflight := take i (inflight s) @ drop (Suc i) (inflight s) \<rparr>)
      else s)"
| "gen_step s Start = start s"
| "gen_step s Stop = stop s"
| "gen_step s (SetRate r) = setRate r s"
| "gen_step s (AddClient ws) = s\<lparr> gen := addClient ws (gen s) \<rparr>"
| "gen_step s (RemoveClient ws) = s\<lparr> gen := removeClient ws (gen s) \<rparr>"

definition gen_run :: "server \<Rightarrow> gen_event list \<Rightarrow> server" where
  "gen_run s es = foldl gen_step s es"

section \<open>useWebSocket (frontend/src/hooks/useWebSocket.js)\<close>

text \<open>
  The hook's refs and React state, with the part of the browser they act on: the
  \<open>readyState\<close> of every socket the hook created (0 connecting, 1 open, 2 closing,
  3 closed), the pending \<open>setTimeout\<close> handles and the active \<open>setInterval\<close>
  handles (timer handles are positive numbers), and what was handed to \<open>ws.send\<close>.
  An event \<open>Open k\<close>, \<open>Close k\<close> or \<open>Err k\<close> is the browser running the handler
  of socket \<open>k\<close>.  \<open>new WebSocket\<close> may throw, which is an input of \<open>connect\<close>.
  Delays are not measured: a timer event is the timer firing, whenever that is.
\<close>

definition RECONNECT_DELAY :: nat where "RECONNECT_DELAY = 3000"
definition HEARTBEAT_INTERVAL :: nat where "HEARTBEAT_INTERVAL = 30000"

















section \<open>useDataBuffer (frontend/src/hooks/useDataBuffer.js)\<close>

text \<open>
  The reducer state, the two refs of the hook, and the pending \<open>setTimeout\<close> handles.
  \<open>Date.now()\<close> is an input.  \<open>CLEAR\<close> builds an object without a \<open>filter\<close> key, so
  the filter reads as undefined afterwards, as \<open>None\<close> does here.
\<close>

definition MAX_BUFFER_SIZE :: nat where "MAX_BUFFER_SIZE = 5000"
definition BATCH_UPDATE_INTERVAL :: nat where "BATCH_UPDATE_INTERVAL = 100"

record ('r, 's) buffer_state =
  records :: "'r list"
  total :: nat
  stats :: "'s option"
  lastUpdate :: int
  filter_sel :: "string option"

datatype ('r, 's) action =
    ADD_BATCH "'r list"
  | UPDATE_STATS 's
  | CLEAR
  | SET_FILTER "string option"
  | UNKNOWN

text \<open>\<open>xs.slice(-n)\<close> for a positive \<open>n\<close>: the last \<open>n\<close> elements, all of them if fewer.\<close>

definition slice_last :: "nat \<Rightarrow> 'a list \<Rightarrow> 'a list" where
  "slice_last n xs = drop (length xs - n) xs"

fun dataBufferReducer :: "int \<Rightarrow> ('r, 's) buffer_state \<Rightarrow> ('r, 's) action \<Rightarrow> ('r, 's) buffer_state" where
  "dataBufferReducer now state (ADD_BATCH newRecords) =
     (let combined = records state @ newRecords;
          recs = (if length combined > MAX_BUFFER_SIZE
                  then slice_last MAX_BUFFER_SIZE combined
                  else combined)
      in state\<lparr> records := recs, total := total state + length newRecords,
                 lastUpdate := now \<rparr>)"
| "dataBufferReducer now state (UPDATE_STATS payload) = state\<lparr> stats := Some payload \<rparr>"
| "dataBufferReducer now state CLEAR =
     \<lparr> records = [], total = 0, stats = None, lastUpdate = now, filter_sel = None \<rparr>"
| "dataBufferReducer now state (SET_FILTER payload) = state\<lparr> filter_sel := payload \<rparr>"
| "dataBufferReducer now state UNKNOWN = state"

definition initialState :: "int \<Rightarrow> ('r, 's) buffer_state" where
  "initialState now =
     \<lparr> records = [], total = 0, stats = None, lastUpdate = now, filter_sel = None \<rparr>"

record ('r, 's) buffer_hook =
  state :: "('r, 's) buffer_state"
  pendingBatchRef :: "'r list"
  batchTimeoutRef :: "nat option"
  buf_timeouts :: "nat list"
  buf_nextTimer :: nat

definition buffer_initial :: "int \<Rightarrow> ('r, 's) buffer_hook" where
  "buffer_initial now =
     \<lparr> state = initialState now, pendingBatchRef = [], batchTimeoutRef = None,
       buf_timeouts = [], buf_nextTimer = 1 \<rparr>"

datatype 'r payload = Many "'r list" | One 'r

fun recordsArray :: "'r payload \<Rightarrow> 'r list" where
  "recordsArray (Many rs) = rs"
| "recordsArray (One r) = [r]"

definition clearTimeout :: "nat \<Rightarrow> ('r, 's) buffer_hook \<Rightarrow> ('r, 's) buffer_hook" where
  "clearTimeout t h = h\<lparr> buf_timeouts := removeAll t (buf_timeouts h) \<rparr>"

definition addRecords :: "'r payload \<Rightarrow> ('r, 's) buffer_hook \<Rightarrow> ('r, 's) buffer_hook" where
  "addRecords p h =
     (let h1 = h\<lparr> pendingBatchRef := pendingBatchRef h @ recordsArray p \<rparr>;
          h2 = (case batchTimeoutRef h1 of None \<Rightarrow> h1 | Some t \<Rightarrow> clearTimeout t h1)
      in h2\<lparr> batchTimeoutRef := Some (buf_nextTimer h2),
              buf_timeouts := buf_timeouts h2 @ [buf_nextTimer h2],
              buf_nextTimer := buf_nextTimer h2 + 1 \<rparr>)"

text \<open>The callback that \<open>addRecords\<close> hands to \<open>setTimeout\<close>.\<close>

definition commit :: "int \<Rightarrow> ('r, 's) buffer_hook \<Rightarrow> ('r, 's) buffer_hook" where
  "commit now h =
     (if length (pendingBatchRef h) > 0
      then h\<lparr> state := dataBufferReducer now (state h) (ADD_BATCH (pendingBatchRef h)),
               pendingBatchRef := [] \<rparr>
      else h)"

definition updateStats :: "'s \<Rightarrow> ('r, 's) buffer_hook \<Rightarrow> ('r, 's) buffer_hook" where
  "updateStats st h = h\<lparr> state := dataBufferReducer 0 (state h) (UPDATE_STATS st) \<rparr>"

definition clearData :: "int \<Rightarrow> ('r, 's) buffer_hook \<Rightarrow> ('r, 's) buffer_hook" where
  "clearData now h =
     (let h1 = h\<lparr> pendingBatchRef := [] \<rparr>;
          h2 = (case batchTimeoutRef h1 of None \<Rightarrow> h1 | Some t \<Rightarrow> clearTimeout t h1)
      in h2\<lparr> state := dataBufferReducer now (state h2) CLEAR \<rparr>)"

definition setFilter :: "string option \<Rightarrow> ('r, 's) buffer_hook \<Rightarrow> ('r, 's) buffer_hook" where
  "setFilter f h = h\<lparr> state := dataBufferReducer 0 (state h) (SET_FILTER f) \<rparr>"

datatype ('r, 's) buffer_event =
    AddRecords "'r payload"
  | Timeout nat int
  | UpdateStats 's
  | ClearData int
  | SetFilter "string option"

fun buffer_step :: "('r, 's) buffer_hook \<Rightarrow> ('r, 's) buffer_event \<Rightarrow> ('r, 's) buffer_hook" where
  "buffer_step h (AddRecords p) = addRecords p h"
| "buffer_step h (Timeout t now) =
     (if t \<in> set (buf_timeouts h) then commit now (clearTimeout t h) else h)"
| "buffer_step h (UpdateStats st) = updateStats st h"
| "buffer_step h (ClearData now) = clearData now h"
| "buffer_step h (SetFilter f) = setFilter f h"

definition buffer_run :: "('r, 's) buffer_hook \<Rightarrow> ('r, 's) buffer_event list \<Rightarrow> ('r, 's) buffer_hook" where
  "buffer_run h es = foldl buffer_step h es"

text \<open>Every record handed to \<open>addRecords\<close> during a run, in arrival order.\<close>

fun ingested :: "('r, 's) buffer_event list \<Rightarrow> 'r list" where
  "ingested [] = []"
| "ingested (AddRecords p # es) = recordsArray p @ ingested es"
| "ingested (e # es) = ingested es"

fun is_clear :: "('r, 's) buffer_event \<Rightarrow> bool" where
  "is_clear (ClearData now) = True"
| "is_clear e = False"

text \<open>Letting the scheduled batch commit, if there is one, fire at time \<open>now\<close>.\<close>

definition fire_commit :: "int \<Rightarrow> ('r, 's) buffer_hook \<Rightarrow> ('r, 's) buffer_hook" where
  "fire_commit now h =
     (case buf_timeouts h of [] \<Rightarrow> h | t # ts \<Rightarrow> buffer_step h (Timeout t now))"

text \<open>Sample subscribers and servers, for the concrete instances below.\<close>

definition open1 :: ws_client where "open1 = \<lparr> cid = 1, readyState = 1, sendThrows = False \<rparr>"
definition closed2 :: ws_client where "closed2 = \<lparr> cid = 2, readyState = 3, sendThrows = False \<rparr>"
definition open3 :: ws_client where "open3 = \<lparr> cid = 3, readyState = 1, sendThrows = False \<rparr>"
definition broken4 :: ws_client where "broken4 = \<lparr> cid = 4, readyState = 1, sendThrows = True \<rparr>"

definition hub3 :: server where
  "hub3 = gen_run (server_new None None) [AddClient open1, AddClient closed2, AddClient open3]"

definition hub4 :: server where
  "hub4 = gen_run (server_new None None)
            [AddClient open1, AddClient closed2, AddClient broken4, AddClient open3]"

definition failed_write :: "gen_event list" where
  "failed_write = [AddClient open1, Start, Tick 0 0 0 0, Settled 0 (Inl (Error ''db down''))]"

text \<open>A server whose first flush is still awaited.\<close>

definition one_inflight :: server where
  "one_inflight = gen_run (server_new None (Some 1)) [AddClient open1, Start, Tick 0 0 0 0]"

text \<open>A running producer of batch size 3 that holds two records.\<close>

definition half_batch :: server where
  "half_batch = gen_run (server_new (Some 100) (Some 3)) [Start, Tick 0 0 0 0, Tick 10 0 0 0]"

text \<open>A sample run of the buffer hook: 6000 records in two bursts.\<close>

definition two_bursts :: "(nat, nat) buffer_event list" where
  "two_bursts = [AddRecords (Many (replicate 3000 1)), Timeout 1 5, UpdateStats 7,
                 AddRecords (Many (replicate 2999 2)), AddRecords (One 3)]"

text \<open>At most one commit is scheduled, the one \<open>batchTimeoutRef\<close> names.\<close>

definition one_timer :: "('r, 's) buffer_hook \<Rightarrow> bool" where
  "one_timer h = (case buf_timeouts h of
                    [] \<Rightarrow> True
                  | t # ts \<Rightarrow> ts = [] \<and> batchTimeoutRef h = Some t)"

section \<open>Properties of the rate limiter\<close>

declare bit_length.simps [simp del]

lemma pow2_powi: "pow2 e = 2 powi e"
  by (simp add: pow2_def power_int_def inverse_eq_divide power_one_over)

lemma pow2_pos: "0 < pow2 e"
  by (simp add: pow2_powi)

lemma pow2_add: "pow2 (a + b) = pow2 a * pow2 b"
  by (simp add: pow2_powi power_int_add)

lemma pow2_diff: "pow2 (a - b) = pow2 a / pow2 b"
  by (simp add: pow2_powi power_int_diff)

lemma pow2_mono: "a \<le> b \<Longrightarrow> pow2 a \<le> pow2 b"
  by (simp add: pow2_powi power_int_increasing)

lemma pow2_nat: "pow2 (int n) = 2 ^ n"
  by (simp add: pow2_def)

lemma bit_length_nonneg: "0 \<le> bit_length n"
proof (induction n rule: bit_length.induct)
  case (1 n)
  then show ?case by (subst bit_length.simps) simp
qed

lemma bit_length_pos: "0 < n \<Longrightarrow> 1 \<le> bit_length n"
  using bit_length_nonneg[of "n div 2"] by (subst bit_length.simps) simp

lemma bit_length_step: "0 < n \<Longrightarrow> bit_length n = 1 + bit_length (n div 2)"
  by (subst bit_length.simps) simp

lemma pow2_Suc: "pow2 (1 + e) = 2 * pow2 e"
  using pow2_add[of 1 e] by (simp add: pow2_def)

lemma bit_length_bounds:
  assumes "0 < n"
  shows "pow2 (bit_length n - 1) \<le> of_int n \<and> of_int n < pow2 (bit_length n)"
  using assms
proof (induction n rule: bit_length.induct)
  case (1 n)
  let ?m = "n div 2"
  have bl: "bit_length n = 1 + bit_length ?m"
    using "1.prems" by (rule bit_length_step)
  show ?case
  proof (cases "?m = 0")
    case True
    have "bit_length ?m = 0" unfolding True by (subst bit_length.simps) simp
    moreover from True "1.prems" have "n = 1" by presburger
    ultimately show ?thesis using bl by (simp add: pow2_def)
  next
    case False
    with "1.prems" have pos: "0 < ?m" by presburger
    have "\<not> n \<le> 0" using "1.prems" by simp
    from "1.IH"[OF this pos]
    have ih1: "pow2 (bit_length ?m - 1) \<le> of_int ?m" and ih2: "of_int ?m < pow2 (bit_length ?m)"
      by blast+
    have "2 * ?m \<le> n" by presburger
    then have "(of_int (2 * ?m) :: rat) \<le> of_int n" by (simp only: of_int_le_iff)
    then have n1: "2 * (of_int ?m :: rat) \<le> of_int n" by simp
    have "n < 2 * (?m + 1)" by presburger
    then have "(of_int n :: rat) < of_int (2 * (?m + 1))" by (simp only: of_int_less_iff)
    then have n2: "(of_int n :: rat) < 2 * (of_int ?m + 1)" by simp
    have "pow2 (bit_length n - 1) = pow2 (1 + (bit_length ?m - 1))"
      by (simp add: bl)
    also have "\<dots> = 2 * pow2 (bit_length ?m - 1)" by (rule pow2_Suc)
    finally have lo: "pow2 (bit_length n - 1) \<le> of_int n"
      using ih1 n1 by linarith
    have ge1: "1 \<le> bit_length ?m" using pos by (rule bit_length_pos)
    then have p: "pow2 (bit_length ?m) = of_int (2 ^ nat (bit_length ?m))"
      by (simp add: pow2_def)
    with ih2 have "(of_int ?m :: rat) < of_int (2 ^ nat (bit_length ?m))" by simp
    then have "?m < 2 ^ nat (bit_length ?m)" by (simp only: of_int_less_iff)
    then have "?m + 1 \<le> 2 ^ nat (bit_length ?m)" by simp
    then have "(of_int (?m + 1) :: rat) \<le> of_int (2 ^ nat (bit_length ?m))"
      by (simp only: of_int_le_iff)
    then have "of_int ?m + 1 \<le> pow2 (bit_length ?m)" using p by simp
    moreover have "pow2 (bit_length n) = 2 * pow2 (bit_length ?m)"
      unfolding bl by (rule pow2_Suc)
    ultimately have hi: "of_int n < pow2 (bit_length n)"
      using n2 by linarith
    from lo hi show ?thesis by blast
  qed
qed

lemma expo_lower:
  assumes "x \<noteq> 0"
  shows "pow2 (expo x) \<le> \<bar>x\<bar>"
proof -
  let ?p = "fst (quotient_of \<bar>x\<bar>)" and ?q = "snd (quotient_of \<bar>x\<bar>)"
  let ?e0 = "bit_length ?p - bit_length ?q"
  have q: "0 < ?q" by (rule quotient_of_denom_pos')
  have x: "\<bar>x\<bar> = of_int ?p / of_int ?q"
    by (rule quotient_of_div) simp
  have qq: "0 < (of_int ?q :: rat)" using q by simp
  have "0 < \<bar>x\<bar>" using assms by simp
  then have "0 < (of_int ?p :: rat) / of_int ?q" by (subst (asm) x)
  then have "0 < (of_int ?p :: rat)"
    using qq by (simp only: zero_less_divide_iff) linarith
  then have p: "0 < ?p" by simp
  show ?thesis
  proof (cases "pow2 ?e0 \<le> \<bar>x\<bar>")
    case True
    then show ?thesis by (simp add: expo_def Let_def)
  next
    case False
    then have e: "expo x = ?e0 - 1" by (simp add: expo_def Let_def)
    have a: "pow2 (bit_length ?p - 1) \<le> of_int ?p"
      using bit_length_bounds[OF p] by blast
    have b: "of_int ?q < pow2 (bit_length ?q)"
      using bit_length_bounds[OF q] by blast
    have "pow2 (?e0 - 1) = pow2 (bit_length ?p - 1) / pow2 (bit_length ?q)"
      using pow2_diff[of "bit_length ?p - 1" "bit_length ?q"] by (simp add: algebra_simps)
    also have "\<dots> \<le> of_int ?p / pow2 (bit_length ?q)"
      using a pow2_pos[of "bit_length ?q"] by (simp add: divide_right_mono)
    also have "\<dots> \<le> of_int ?p / of_int ?q"
      using b p qq by (simp add: frac_le)
    finally have r: "pow2 (?e0 - 1) \<le> of_int ?p / of_int ?q" .
    show ?thesis unfolding e by (rule ord_le_eq_trans[OF r x[symmetric]])
  qed
qed

lemma expo_upper:
  assumes "x \<noteq> 0"
  shows "\<bar>x\<bar> < pow2 (expo x + 1)"
proof -
  let ?p = "fst (quotient_of \<bar>x\<bar>)" and ?q = "snd (quotient_of \<bar>x\<bar>)"
  let ?e0 = "bit_length ?p - bit_length ?q"
  have q: "0 < ?q" by (rule quotient_of_denom_pos')
  have x: "\<bar>x\<bar> = of_int ?p / of_int ?q"
    by (rule quotient_of_div) simp
  have qq: "0 < (of_int ?q :: rat)" using q by simp
  have "0 < \<bar>x\<bar>" using assms by simp
  then have "0 < (of_int ?p :: rat) / of_int ?q" by (subst (asm) x)
  then have pp: "0 < (of_int ?p :: rat)"
    using qq by (simp only: zero_less_divide_iff) linarith
  then have p: "0 < ?p" by simp
  show ?thesis
  proof (cases "pow2 ?e0 \<le> \<bar>x\<bar>")
    case True
    then have e: "expo x = ?e0" by (simp add: expo_def Let_def)
    have a: "of_int ?p < pow2 (bit_length ?p)"
      using bit_length_bounds[OF p] by blast
    have b: "pow2 (bit_length ?q - 1) \<le> of_int ?q"
      using bit_length_bounds[OF q] by blast
    have "of_int ?p / of_int ?q \<le> of_int ?p / pow2 (bit_length ?q - 1)"
      using b pp pow2_pos[of "bit_length ?q - 1"] by (simp add: frac_le)
    also have "\<dots> < pow2 (bit_length ?p) / pow2 (bit_length ?q - 1)"
      using a pow2_pos[of "bit_length ?q - 1"] by (simp add: divide_strict_right_mono)
    also have "\<dots> = pow2 (?e0 + 1)"
      using pow2_diff[of "bit_length ?p" "bit_length ?q - 1"] by (simp add: algebra_simps)
    finally have r: "of_int ?p / of_int ?q < pow2 (?e0 + 1)" .
    show ?thesis unfolding e by (rule ord_eq_less_trans[OF x r])
  next
    case False
    then have "expo x = ?e0 - 1" by (simp add: expo_def Let_def)
    then show ?thesis using False by simp
  qed
qed

text \<open>
  Two known doubles: the one nearest to 0.1, and the sum of the doubles nearest to 0.1 and
  0.2, which is 0.30000000000000004.
\<close>

lemma fl_known_values:
  "fl (1 / 10) = 3602879701896397 / 2 ^ 55"
  "fl (fl (1 / 10) + fl (2 / 10)) = 5404319552844596 / 2 ^ 54"
  by code_simp+

lemma rhe_floor: "\<lfloor>y\<rfloor> \<le> round_half_even y"
  by (simp add: round_half_even_def Let_def)

lemma rhe_cases:
  "(round_half_even y = \<lfloor>y\<rfloor> \<and> y - of_int \<lfloor>y\<rfloor> \<le> 1 / 2)
   \<or> (round_half_even y = \<lfloor>y\<rfloor> + 1 \<and> 1 / 2 \<le> y - of_int \<lfloor>y\<rfloor>)"
  by (simp add: round_half_even_def Let_def)

lemma rhe_upper: "of_int (round_half_even y) \<le> y + 1 / 2"
proof -
  have a: "of_int \<lfloor>y\<rfloor> \<le> y" by linarith
  from rhe_cases[of y] show ?thesis
  proof
    assume "round_half_even y = \<lfloor>y\<rfloor> \<and> y - of_int \<lfloor>y\<rfloor> \<le> 1 / 2"
    then have "(of_int (round_half_even y) :: rat) = of_int \<lfloor>y\<rfloor>" by simp
    with a show ?thesis by linarith
  next
    assume h: "round_half_even y = \<lfloor>y\<rfloor> + 1 \<and> 1 / 2 \<le> y - of_int \<lfloor>y\<rfloor>"
    then have "(of_int (round_half_even y) :: rat) = of_int \<lfloor>y\<rfloor> + 1" by simp
    with h show ?thesis by linarith
  qed
qed

lemma rhe_lower: "y - 1 / 2 \<le> of_int (round_half_even y)"
proof -
  have a: "y < of_int \<lfloor>y\<rfloor> + 1" by linarith
  from rhe_cases[of y] show ?thesis
  proof
    assume h: "round_half_even y = \<lfloor>y\<rfloor> \<and> y - of_int \<lfloor>y\<rfloor> \<le> 1 / 2"
    then have "(of_int (round_half_even y) :: rat) = of_int \<lfloor>y\<rfloor>" by simp
    with h show ?thesis by linarith
  next
    assume "round_half_even y = \<lfloor>y\<rfloor> + 1 \<and> 1 / 2 \<le> y - of_int \<lfloor>y\<rfloor>"
    then have "(of_int (round_half_even y) :: rat) = of_int \<lfloor>y\<rfloor> + 1" by simp
    with a show ?thesis by linarith
  qed
qed

lemma rhe_ge_int:
  assumes "of_int n \<le> y"
  shows "n \<le> round_half_even y"
proof -
  have "n \<le> \<lfloor>y\<rfloor>" using assms by (simp add: le_floor_iff)
  with rhe_floor[of y] show ?thesis by linarith
qed

lemma rhe_nonpos: "y \<le> 0 \<Longrightarrow> round_half_even y \<le> 0"
proof -
  assume y: "y \<le> 0"
  have "of_int (round_half_even y) \<le> y + 1 / 2" by (rule rhe_upper)
  with y have "(of_int (round_half_even y) :: rat) < 1" by linarith
  then have "round_half_even y < 1" by (metis of_int_less_iff of_int_1)
  then show ?thesis by simp
qed

lemma fl_nonpos: "x \<le> 0 \<Longrightarrow> fl x \<le> 0"
proof (cases "x = 0")
  case True
  then show ?thesis by (simp add: fl_def)
next
  case False
  assume "x \<le> 0"
  let ?u = "pow2 (max (expo x - 52) (- 1074))"
  have u: "0 < ?u" by (rule pow2_pos)
  then have "x / ?u \<le> 0" using \<open>x \<le> 0\<close> by (simp add: divide_nonpos_pos)
  then have "round_half_even (x / ?u) \<le> 0" by (rule rhe_nonpos)
  then have "(of_int (round_half_even (x / ?u)) :: rat) \<le> 0" by simp
  then have "of_int (round_half_even (x / ?u)) * ?u \<le> 0"
    using u by (simp add: mult_le_0_iff)
  then show ?thesis using False by (simp add: fl_def Let_def)
qed

text \<open>A positive whole number below \<open>2 ^ 53\<close> is a double, and rounding never crosses it.\<close>

lemma fl_ge_int:
  assumes n: "0 < n" "n < 2 ^ 53" and x: "of_int n \<le> x"
  shows "of_int n \<le> fl x"
proof -
  have x0: "0 < x" using n(1) x by (meson less_le_trans of_int_0_less_iff)
  let ?m = "max (expo x - 52) (- 1074)"
  let ?u = "pow2 ?m"
  have u: "0 < ?u" by (rule pow2_pos)
  have f: "fl x = of_int (round_half_even (x / ?u)) * ?u"
    using x0 by (simp add: fl_def Let_def)
  show ?thesis
  proof (cases "?m \<le> 0")
    case True
    then have um: "?u = 1 / 2 ^ nat (- ?m)"
      by (cases "?m = 0") (simp_all add: pow2_def)
    have "of_int (n * 2 ^ nat (- ?m)) = of_int n / ?u"
      by (simp add: um)
    also have "\<dots> \<le> x / ?u"
      using x u by (simp add: divide_right_mono)
    finally have "n * 2 ^ nat (- ?m) \<le> round_half_even (x / ?u)"
      by (rule rhe_ge_int)
    then have "(of_int (n * 2 ^ nat (- ?m)) :: rat) \<le> of_int (round_half_even (x / ?u))"
      by (simp only: of_int_le_iff)
    then have "of_int (n * 2 ^ nat (- ?m)) * ?u \<le> of_int (round_half_even (x / ?u)) * ?u"
      using u by (simp add: mult_right_mono)
    moreover have "of_int (n * 2 ^ nat (- ?m)) * ?u = of_int n"
      by (simp add: um)
    ultimately have "of_int n \<le> of_int (round_half_even (x / ?u)) * ?u"
      by (simp only:)
    then show ?thesis by (simp only: f)
  next
    case False
    then have m: "?m = expo x - 52" and big: "1 \<le> ?m" by simp_all
    have "pow2 (expo x) \<le> x" using expo_lower[of x] x0 by simp
    moreover have "pow2 (expo x) = pow2 52 * ?u"
      using pow2_add[of 52 "expo x - 52"] by (simp add: m)
    ultimately have "pow2 52 \<le> x / ?u"
      using u by (simp add: pos_le_divide_eq)
    moreover have "pow2 52 = of_int (2 ^ 52)" by (simp add: pow2_def)
    ultimately have "of_int (2 ^ 52) \<le> x / ?u" by simp
    then have "2 ^ 52 \<le> round_half_even (x / ?u)" by (rule rhe_ge_int)
    then have r: "(of_int (2 ^ 52) :: rat) \<le> of_int (round_half_even (x / ?u))"
      by (simp only: of_int_le_iff)
    have "pow2 1 \<le> ?u" using big by (rule pow2_mono)
    then have u2: "2 \<le> ?u" by (simp add: pow2_def)
    have "(of_int (2 ^ 52) :: rat) * 2 \<le> of_int (round_half_even (x / ?u)) * ?u"
      using r u2 by (intro mult_mono) simp_all
    moreover have "(of_int n :: rat) < of_int (2 ^ 53)"
      using n(2) by (simp only: of_int_less_iff)
    ultimately show ?thesis by (simp add: f)
  qed
qed

text \<open>The relative error of rounding a positive number in the normal range is at most \<open>2 ^ -53\<close>.\<close>

lemma fl_error:
  assumes "pow2 (- 1022) \<le> x"
  shows "fl x \<le> x + x / 2 ^ 53" and "x - x / 2 ^ 53 \<le> fl x"
proof -
  have x0: "0 < x" using assms pow2_pos[of "- 1022"] by linarith
  let ?m = "max (expo x - 52) (- 1074)"
  let ?u = "pow2 ?m"
  have u: "0 < ?u" by (rule pow2_pos)
  have f: "fl x = of_int (round_half_even (x / ?u)) * ?u"
    using x0 by (simp add: fl_def Let_def)
  have small: "?u * 2 ^ 52 \<le> x"
  proof (cases "expo x - 52 \<le> - 1074")
    case True
    then have "?m = - 1074" by simp
    then have "?u * 2 ^ 52 = pow2 (- 1074) * pow2 52" by (simp add: pow2_nat[of 52, simplified])
    also have "\<dots> = pow2 (- 1022)" using pow2_add[of "- 1074" 52] by simp
    finally show ?thesis using assms by simp
  next
    case False
    then have "?m = expo x - 52" by simp
    then have "?u * 2 ^ 52 = pow2 (expo x - 52) * pow2 52" by (simp add: pow2_nat[of 52, simplified])
    also have "\<dots> = pow2 (expo x)" using pow2_add[of "expo x - 52" 52] by simp
    finally show ?thesis using expo_lower[of x] x0 by simp
  qed
  then have half: "?u / 2 \<le> x / 2 ^ 53" by simp
  have "of_int (round_half_even (x / ?u)) * ?u \<le> (x / ?u + 1 / 2) * ?u"
    using rhe_upper[of "x / ?u"] u by (simp only: mult_right_mono less_imp_le)
  also have "\<dots> = x + ?u / 2" using u by (simp add: algebra_simps)
  finally show "fl x \<le> x + x / 2 ^ 53" using half by (simp add: f)
  have "(x / ?u - 1 / 2) * ?u \<le> of_int (round_half_even (x / ?u)) * ?u"
    using rhe_lower[of "x / ?u"] u by (simp only: mult_right_mono less_imp_le)
  moreover have "(x / ?u - 1 / 2) * ?u = x - ?u / 2" using u by (simp add: algebra_simps)
  ultimately show "x - x / 2 ^ 53 \<le> fl x" using half by (simp add: f)
qed

lemma fl_nonneg: "0 \<le> x \<Longrightarrow> 0 \<le> fl x"
proof (cases "x = 0")
  case True
  then show ?thesis by (simp add: fl_def)
next
  case False
  assume "0 \<le> x"
  let ?u = "pow2 (max (expo x - 52) (- 1074))"
  have u: "0 < ?u" by (rule pow2_pos)
  then have "of_int 0 \<le> x / ?u" using \<open>0 \<le> x\<close> by simp
  then have "0 \<le> round_half_even (x / ?u)" by (rule rhe_ge_int)
  then have "0 \<le> (of_int (round_half_even (x / ?u)) :: rat)" by simp
  then have "0 \<le> of_int (round_half_even (x / ?u)) * ?u"
    using u by simp
  then show ?thesis using False by (simp add: fl_def Let_def)
qed

text \<open>
  The floor of the doubly rounded product \<open>tp / W * M\<close> against the exact quotient
  \<open>tp * M div W\<close>: never above it, and at most one below.
\<close>

lemma double_floor_bounds:
  assumes W: "0 < W" "W \<le> 2 ^ 53" and M: "1 \<le> M" and tp: "0 < tp" "tp * M < 2 ^ 51"
  shows "\<lfloor>fl (fl (of_int tp / of_int W) * of_int M)\<rfloor> \<le> (tp * M) div W"
    and "(tp * M) div W - 1 \<le> \<lfloor>fl (fl (of_int tp / of_int W) * of_int M)\<rfloor>"
proof -
  define w :: rat where "w = of_int W"
  define m :: rat where "m = of_int M"
  define T :: rat where "T = of_int (tp * M)"
  define q :: rat where "q = of_int tp / w"
  define x :: rat where "x = q * m"
  define e :: rat where "e = 1 / 2 ^ 53"
  define q1 where "q1 = fl q"
  define p where "p = q1 * m"
  define p1 where "p1 = fl p"
  define k where "k = (tp * M) div W"
  have w0: "0 < w" and m1: "1 \<le> m" using W(1) M by (simp_all add: w_def m_def)
  have e0: "0 < e" and e1: "e \<le> 1 / 4" by (simp_all add: e_def)
  have t1: "1 \<le> (of_int tp :: rat)"
  proof -
    have "1 \<le> tp" using tp(1) by simp
    then have "(of_int 1 :: rat) \<le> of_int tp" by (simp only: of_int_le_iff)
    then show ?thesis by simp
  qed
  have wle: "w \<le> 2 ^ 53"
  proof -
    have "(of_int W :: rat) \<le> of_int (2 ^ 53)" using W(2) by (simp only: of_int_le_iff)
    then show ?thesis by (simp add: w_def)
  qed
  have q0: "0 < q" using t1 w0 by (simp add: q_def)
  have qlow: "pow2 (- 53) \<le> q"
  proof -
    have "1 / 2 ^ 53 \<le> 1 / w" using w0 wle by (simp add: frac_le)
    also have "\<dots> \<le> of_int tp / w" using t1 w0 by (simp add: divide_right_mono)
    finally show ?thesis by (simp add: q_def pow2_def)
  qed
  have "pow2 (- 1022) \<le> pow2 (- 53)" by (rule pow2_mono) simp
  with qlow have qn: "pow2 (- 1022) \<le> q" by linarith
  from fl_error[OF qn] have q1u: "q1 \<le> q + q * e" and q1l: "q - q * e \<le> q1"
    by (simp_all add: q1_def e_def)
  have qe: "q * e \<le> q / 4" using q0 e1 by (simp add: mult_left_mono)
  have q1low: "q / 2 \<le> q1" using q1l qe q0 by linarith
  have x0: "0 < x" using q0 m1 by (simp add: x_def)
  have pu: "p \<le> x + x * e"
  proof -
    have "q1 * m \<le> (q + q * e) * m" using q1u m1 by (simp add: mult_right_mono)
    then show ?thesis by (simp add: p_def x_def algebra_simps)
  qed
  have pl: "x - x * e \<le> p"
  proof -
    have "(q - q * e) * m \<le> q1 * m" using q1l m1 by (simp add: mult_right_mono)
    then show ?thesis by (simp add: p_def x_def algebra_simps)
  qed
  have plow: "pow2 (- 54) \<le> p"
  proof -
    have "pow2 (- 54) = pow2 (- 53) / 2" using pow2_add[of "- 54" 1] by (simp add: pow2_def)
    also have "\<dots> \<le> q / 2" using qlow by simp
    also have "\<dots> \<le> q1" by (rule q1low)
    also have "\<dots> = q1 * 1" by simp
    also have "\<dots> \<le> q1 * m" using m1 q1low q0 by (intro mult_left_mono) simp_all
    finally show ?thesis by (simp add: p_def)
  qed
  have "pow2 (- 1022) \<le> pow2 (- 54)" by (rule pow2_mono) simp
  with plow have pn: "pow2 (- 1022) \<le> p" by linarith
  have p0: "0 < p" using plow pow2_pos[of "- 54"] by linarith
  from fl_error[OF pn] have p1u: "p1 \<le> p + p * e" and p1l: "p - p * e \<le> p1"
    by (simp_all add: p1_def e_def)
  have xw: "x * w = T"
    using w0 by (simp add: x_def q_def T_def m_def)
  have Tsmall: "4 * T * e < 1"
  proof -
    have "4 * (tp * M) < 4 * 2 ^ 51" using tp(2) by linarith
    then have "4 * (tp * M) < 2 ^ 53" by simp
    then have "(of_int (4 * (tp * M)) :: rat) < of_int (2 ^ 53)" by (simp only: of_int_less_iff)
    then have "4 * T < 2 ^ 53" by (simp add: T_def)
    then show ?thesis by (simp add: e_def)
  qed
  have T0: "0 < T" using xw x0 w0 by (metis mult_pos_pos)
  have xT: "x \<le> T"
  proof -
    have "x * 1 \<le> x * w" using x0 w0 W(1) by (intro mult_left_mono) (simp_all add: w_def)
    then show ?thesis using xw by simp
  qed
  have xe: "4 * x * e < 1"
  proof -
    have "4 * x * e \<le> 4 * T * e" using xT e0 by (simp add: mult_right_mono)
    with Tsmall show ?thesis by linarith
  qed
  have pe: "p * e \<le> (x + x * e) * e" using pu e0 by (simp add: mult_right_mono)
  have xee: "x * e * e \<le> x * e"
  proof -
    have "x * e * e \<le> x * e * 1" using x0 e0 e1 by (intro mult_left_mono) simp_all
    then show ?thesis by simp
  qed
  have up: "p1 \<le> x + 3 * (x * e)"
    using p1u pu pe xee by (simp add: algebra_simps)
  have kT: "of_int (tp * M) + 1 \<le> (of_int ((k + 1) * W) :: rat)"
  proof -
    have "tp * M = W * k + (tp * M) mod W" by (simp add: k_def)
    moreover have "(tp * M) mod W < W" using W(1) by simp
    ultimately have "tp * M + 1 \<le> (k + 1) * W" by (simp add: algebra_simps)
    then have "(of_int (tp * M + 1) :: rat) \<le> of_int ((k + 1) * W)" by (simp only: of_int_le_iff)
    then show ?thesis by simp
  qed
  have "(x + 3 * (x * e)) * w = T + 3 * T * e"
    using xw by (simp add: algebra_simps)
  also have "\<dots> < T + 1" using Tsmall T0 e0 by (simp add: algebra_simps) 
  also have "\<dots> \<le> of_int (k + 1) * w" using kT by (simp add: T_def w_def)
  finally have "x + 3 * (x * e) < of_int (k + 1)"
    using w0 by (simp only: mult_less_cancel_right_pos)
  with up have "p1 < of_int (k + 1)" by linarith
  then have "\<lfloor>p1\<rfloor> < k + 1" by (simp only: floor_less_iff)
  then show "\<lfloor>fl (fl (of_int tp / of_int W) * of_int M)\<rfloor> \<le> (tp * M) div W"
    by (simp add: p1_def p_def q1_def q_def w_def m_def k_def)
  have ple: "p * e \<le> (x + x * e) * e" by (rule pe)
  have low: "x - 3 * (x * e) \<le> p1"
    using p1l pl ple xee by (simp add: algebra_simps)
  have kx: "of_int k \<le> x"
  proof -
    have "tp * M = W * k + (tp * M) mod W" by (simp add: k_def)
    moreover have "0 \<le> (tp * M) mod W" using W(1) by simp
    ultimately have "k * W \<le> tp * M" by (simp add: algebra_simps)
    then have "(of_int (k * W) :: rat) \<le> of_int (tp * M)" by (simp only: of_int_le_iff)
    then have "of_int k * w \<le> x * w" using xw by (simp add: T_def w_def)
    then show ?thesis using w0 by (simp only: mult_le_cancel_right_pos)
  qed
  have "of_int (k - 1) \<le> p1" using low kx xe by simp
  then have "k - 1 \<le> \<lfloor>p1\<rfloor>" by (simp only: le_floor_iff)
  then show "(tp * M) div W - 1 \<le> \<lfloor>fl (fl (of_int tp / of_int W) * of_int M)\<rfloor>"
    by (simp add: p1_def p_def q1_def q_def w_def m_def k_def)
qed


lemma floor_quot_div:
  "\<lfloor>(of_int x :: rat) / of_int w * of_int m\<rfloor> = (x * m) div w"
  by (metis (no_types) floor_divide_of_int_eq of_int_mult times_divide_eq_left)

lemma div_superadd: "a div w + b div w \<le> (a + b) div (w::int)"
proof -
  have "\<lfloor>(of_int a::rat) / of_int w\<rfloor> + \<lfloor>(of_int b::rat) / of_int w\<rfloor>
        \<le> \<lfloor>(of_int a::rat) / of_int w + of_int b / of_int w\<rfloor>"
    by (rule le_floor_add)
  also have "(of_int a::rat) / of_int w + of_int b / of_int w = of_int (a + b) / of_int w"
    by (simp add: add_divide_distrib)
  finally show ?thesis
    by (simp only: floor_divide_of_int_eq)
qed

lemma int_div_less:
  assumes "0 < w" and "a < m * w"
  shows "a div w < (m::int)"
proof (rule ccontr)
  assume "\<not> a div w < m"
  then have "m * w \<le> (a div w) * w"
    using assms(1) by (simp add: mult_right_mono)
  moreover have "a = a div w * w + a mod w" by simp
  moreover have "0 \<le> a mod w" using assms(1) by simp
  ultimately show False using assms(2) by linarith
qed


lemma tokensToAdd_zero: "tokensToAdd rl 0 = 0"
  by (simp add: tokensToAdd_def fl_def)

lemma tokensToAdd_upper:
  assumes "0 < windowMs rl" "windowMs rl \<le> 2 ^ 53" "1 \<le> maxRequests rl"
    and "tp * maxRequests rl < 2 ^ 51"
  shows "tokensToAdd rl tp \<le> max 0 ((tp * maxRequests rl) div windowMs rl)"
proof (cases "0 < tp")
  case True
  from double_floor_bounds(1)[OF assms(1,2,3) True assms(4)]
  show ?thesis by (simp add: tokensToAdd_def)
next
  case False
  then have "(of_int tp :: rat) / of_int (windowMs rl) \<le> 0"
    using assms(1) by (simp add: divide_nonpos_pos)
  then have "fl (of_int tp / of_int (windowMs rl)) \<le> 0" by (rule fl_nonpos)
  then have "fl (of_int tp / of_int (windowMs rl)) * of_int (maxRequests rl) \<le> 0"
    using assms(3) by (simp add: mult_le_0_iff)
  then have "fl (fl (of_int tp / of_int (windowMs rl)) * of_int (maxRequests rl)) \<le> 0"
    by (rule fl_nonpos)
  then have "tokensToAdd rl tp \<le> 0"
    unfolding tokensToAdd_def by simp
  then show ?thesis by simp
qed

lemma tokensToAdd_full:
  assumes "0 < windowMs rl" "1 \<le> maxRequests rl" "maxRequests rl < 2 ^ 53"
    and "windowMs rl \<le> tp"
  shows "maxRequests rl \<le> tokensToAdd rl tp"
proof -
  have w: "0 < (of_int (windowMs rl) :: rat)" using assms(1) by simp
  have "(of_int (windowMs rl) :: rat) \<le> of_int tp"
    using assms(4) by (simp only: of_int_le_iff)
  then have "of_int 1 \<le> (of_int tp :: rat) / of_int (windowMs rl)"
    using w by (simp add: pos_le_divide_eq)
  then have q: "of_int 1 \<le> fl (of_int tp / of_int (windowMs rl))"
    by (intro fl_ge_int) simp_all
  have m: "1 \<le> (of_int (maxRequests rl) :: rat)"
  proof -
    have "(of_int 1 :: rat) \<le> of_int (maxRequests rl)"
      using assms(2) by (simp only: of_int_le_iff)
    then show ?thesis by simp
  qed
  have "1 * of_int (maxRequests rl)
        \<le> fl (of_int tp / of_int (windowMs rl)) * (of_int (maxRequests rl) :: rat)"
    using q m by (intro mult_right_mono) simp_all
  then have "of_int (maxRequests rl)
        \<le> fl (of_int tp / of_int (windowMs rl)) * (of_int (maxRequests rl) :: rat)"
    by simp
  then have "of_int (maxRequests rl)
        \<le> fl (fl (of_int tp / of_int (windowMs rl)) * of_int (maxRequests rl))"
    using assms(2,3) by (intro fl_ge_int) simp_all
  then show ?thesis
    unfolding tokensToAdd_def by (simp only: le_floor_iff)
qed

lemma consume_all_Cons:
  "consume_all rl ip (t # ts) =
     (fst (consume rl t ip) # fst (consume_all (snd (consume rl t ip)) ip ts),
      snd (consume_all (snd (consume rl t ip)) ip ts))"
  by (simp split: prod.splits)

declare consume_all.simps(2) [simp del]

lemma consume_config:
  "windowMs (snd (consume rl t ip)) = windowMs rl"
  "maxRequests (snd (consume rl t ip)) = maxRequests rl"
  by (simp_all add: consume_def Let_def split: option.splits)


lemma consume_step:
  assumes W: "0 < windowMs rl" "windowMs rl \<le> 2 ^ 53" and M: "1 \<le> maxRequests rl"
    and b: "buckets rl ip = Some b" and nn: "0 \<le> tokens b"
    and sz: "(t - lastRefill b) * maxRequests rl < 2 ^ 51"
  shows "\<exists>b'. buckets (snd (consume rl t ip)) ip = Some b' \<and> 0 \<le> tokens b'
            \<and> lastRefill b' \<in> {lastRefill b, t}
            \<and> (if allowed (fst (consume rl t ip)) then 1 else 0) + tokens b'
                 \<le> tokens b + ((lastRefill b' - lastRefill b) * maxRequests rl) div windowMs rl"
proof (cases "0 < tokensToAdd rl (t - lastRefill b)")
  case True
  with tokensToAdd_upper[OF W M sz]
  have "tokensToAdd rl (t - lastRefill b)
          \<le> ((t - lastRefill b) * maxRequests rl) div windowMs rl"
    by linarith
  with True show ?thesis using M b nn
    by (auto simp: consume_def refillTokens_def Let_def)
next
  case False
  then show ?thesis using M b nn
    by (auto simp: consume_def refillTokens_def Let_def)
qed

lemma consume_all_existing:
  assumes W: "0 < windowMs rl" "windowMs rl \<le> 2 ^ 53" and M: "1 \<le> maxRequests rl"
    and b: "buckets rl ip = Some b" and nn: "0 \<le> tokens b"
    and sz: "\<forall>t \<in> set ts. \<forall>l \<in> insert (lastRefill b) (set ts).
               (t - l) * maxRequests rl < 2 ^ 51"
  shows "\<exists>b'. buckets (snd (consume_all rl ip ts)) ip = Some b' \<and> 0 \<le> tokens b'
            \<and> lastRefill b' \<in> insert (lastRefill b) (set ts)
            \<and> int (count_allowed (fst (consume_all rl ip ts))) + tokens b'
                 \<le> tokens b + ((lastRefill b' - lastRefill b) * maxRequests rl) div windowMs rl"
  using assms
proof (induction ts arbitrary: rl b)
  case Nil
  then show ?case by (simp add: count_allowed_def)
next
  case (Cons t ts)
  let ?r = "fst (consume rl t ip)" and ?rl1 = "snd (consume rl t ip)"
  have sz0: "(t - lastRefill b) * maxRequests rl < 2 ^ 51"
    using Cons.prems(6) by simp
  from consume_step[OF Cons.prems(1-5) sz0] obtain b1 where
    b1: "buckets ?rl1 ip = Some b1" and nn1: "0 \<le> tokens b1"
    and l1: "lastRefill b1 \<in> {lastRefill b, t}"
    and c1: "(if allowed ?r then 1 else 0) + tokens b1
              \<le> tokens b + ((lastRefill b1 - lastRefill b) * maxRequests rl) div windowMs rl"
    by blast
  have W1: "0 < windowMs ?rl1" "windowMs ?rl1 \<le> 2 ^ 53" and M1: "1 \<le> maxRequests ?rl1"
    using Cons.prems by (simp_all add: consume_config)
  have sz1: "\<forall>t' \<in> set ts. \<forall>l \<in> insert (lastRefill b1) (set ts).
               (t' - l) * maxRequests ?rl1 < 2 ^ 51"
    using Cons.prems(6) l1 by (auto simp: consume_config)
  from Cons.IH[OF W1 M1 b1 nn1 sz1] obtain b2 where
    b2: "buckets (snd (consume_all ?rl1 ip ts)) ip = Some b2" and nn2: "0 \<le> tokens b2"
    and l2: "lastRefill b2 \<in> insert (lastRefill b1) (set ts)"
    and c2: "int (count_allowed (fst (consume_all ?rl1 ip ts))) + tokens b2
              \<le> tokens b1 + ((lastRefill b2 - lastRefill b1) * maxRequests rl) div windowMs rl"
    by (auto simp: consume_config)
  have sup: "((lastRefill b1 - lastRefill b) * maxRequests rl) div windowMs rl
           + ((lastRefill b2 - lastRefill b1) * maxRequests rl) div windowMs rl
           \<le> ((lastRefill b2 - lastRefill b) * maxRequests rl) div windowMs rl"
    using div_superadd[of "(lastRefill b1 - lastRefill b) * maxRequests rl" "windowMs rl"
        "(lastRefill b2 - lastRefill b1) * maxRequests rl"]
    by (simp add: algebra_simps)
  have cnt: "int (count_allowed (fst (consume_all rl ip (t # ts))))
             = (if allowed ?r then 1 else 0) + int (count_allowed (fst (consume_all ?rl1 ip ts)))"
    by (simp add: consume_all_Cons count_allowed_def)
  have "lastRefill b2 \<in> insert (lastRefill b) (set (t # ts))"
    using l1 l2 by auto
  moreover have "int (count_allowed (fst (consume_all rl ip (t # ts)))) + tokens b2
        \<le> tokens b + ((lastRefill b2 - lastRefill b) * maxRequests rl) div windowMs rl"
    using cnt c1 c2 sup by linarith
  ultimately show ?case
    using b2 nn2 by (simp add: consume_all_Cons)
qed

lemma consume_fresh:
  assumes "buckets rl ip = None"
  shows "consume rl t ip =
     (\<lparr> allowed = True, remaining = maxRequests rl - 1, resetTime = None \<rparr>,
      rl\<lparr> buckets := (buckets rl)(ip \<mapsto>
            \<lparr> tokens = maxRequests rl - 1, lastRefill = t, firstRequest = t \<rparr>) \<rparr>)"
  using assms by (simp add: consume_def Let_def)


lemma consume_all_fresh:
  assumes W: "0 < windowMs rl" "windowMs rl \<le> 2 ^ 53" and M: "1 \<le> maxRequests rl"
    and fresh: "buckets rl ip = None"
    and sz: "\<forall>t \<in> set ts. \<bar>t - t0\<bar> * maxRequests rl < 2 ^ 50"
  shows "\<exists>l \<in> insert t0 (set ts).
           int (count_allowed (fst (consume_all rl ip (t0 # ts))))
             \<le> maxRequests rl + ((l - t0) * maxRequests rl) div windowMs rl"
proof -
  let ?b = "\<lparr> tokens = maxRequests rl - 1, lastRefill = t0, firstRequest = t0 \<rparr>"
  let ?rl1 = "rl\<lparr> buckets := (buckets rl)(ip \<mapsto> ?b) \<rparr>"
  have c: "consume rl t0 ip =
     (\<lparr> allowed = True, remaining = maxRequests rl - 1, resetTime = None \<rparr>, ?rl1)"
    by (rule consume_fresh[OF fresh])
  have pair: "(t - l) * maxRequests rl < 2 ^ 51"
    if "t \<in> insert t0 (set ts)" "l \<in> insert t0 (set ts)" for t l
  proof -
    have a: "\<bar>t - t0\<bar> * maxRequests rl < 2 ^ 50" using that(1) sz M by auto
    have b: "\<bar>l - t0\<bar> * maxRequests rl < 2 ^ 50" using that(2) sz M by auto
    have "t - l \<le> \<bar>t - t0\<bar> + \<bar>l - t0\<bar>" by linarith
    then have "(t - l) * maxRequests rl \<le> (\<bar>t - t0\<bar> + \<bar>l - t0\<bar>) * maxRequests rl"
      using M by (intro mult_right_mono) simp_all
    also have "\<dots> = \<bar>t - t0\<bar> * maxRequests rl + \<bar>l - t0\<bar> * maxRequests rl"
      by (simp add: algebra_simps)
    finally show ?thesis using a b by simp
  qed
  have "0 < windowMs ?rl1" "windowMs ?rl1 \<le> 2 ^ 53" "1 \<le> maxRequests ?rl1"
    "buckets ?rl1 ip = Some ?b" "0 \<le> tokens ?b"
    "\<forall>t \<in> set ts. \<forall>l \<in> insert (lastRefill ?b) (set ts). (t - l) * maxRequests ?rl1 < 2 ^ 51"
    using W M pair by simp_all
  from consume_all_existing[OF this] obtain b' :: bucket where
    l: "lastRefill b' \<in> insert t0 (set ts)" and nn: "0 \<le> tokens b'"
    and le: "int (count_allowed (fst (consume_all ?rl1 ip ts))) + tokens b'
             \<le> maxRequests rl - 1 + ((lastRefill b' - t0) * maxRequests rl) div windowMs rl"
    by auto
  have "int (count_allowed (fst (consume_all rl ip (t0 # ts))))
        = 1 + int (count_allowed (fst (consume_all ?rl1 ip ts)))"
    by (simp add: consume_all_Cons c count_allowed_def)
  with le nn have "int (count_allowed (fst (consume_all rl ip (t0 # ts))))
        \<le> maxRequests rl + ((lastRefill b' - t0) * maxRequests rl) div windowMs rl"
    by linarith
  with l show ?thesis by blast
qed

lemma consume_denied:
  assumes "\<not> allowed (fst (consume rl now ip))"
  shows "remaining (fst (consume rl now ip)) = 0 \<and>
         (\<exists>b. buckets (snd (consume rl now ip)) ip = Some b \<and>
              resetTime (fst (consume rl now ip)) = Some (lastRefill b + windowMs rl))"
  using assms by (auto simp: consume_def Let_def split: option.splits if_splits)


text \<open>
  Claim C3, as the code has it.  The bucket refills continuously, so calls inside one
  window are not limited to the quota \<open>M\<close>: for a key seen for the first time at
  \<open>t0\<close>, and later calls no more than \<open>d\<close> after it, at most
  \<open>M + floor (d / windowMs * M)\<close> calls are allowed; that is at most \<open>2 * M - 1\<close>
  when every call is less than one window after the first, and at most \<open>M\<close> when no
  call is late enough to earn a token (all calls at one instant, for example).  Every
  denied call reports \<open>remaining = 0\<close> and \<open>resetTime = lastRefill + windowMs\<close> of
  the bucket.  With \<open>M = 5\<close>, six calls at one instant give remaining 4, 3, 2, 1, 0 and
  a denial.  The bounds are for sizes at which the rounding of the refill in double
  precision cannot add a token: \<open>windowMs\<close> at most \<open>2 ^ 53\<close> and every call
  within \<open>2 ^ 50 / M\<close> milliseconds of the first.
\<close>

theorem consume_window_quota:
  assumes W: "0 < windowMs rl" "windowMs rl \<le> 2 ^ 53" and M: "1 \<le> maxRequests rl"
    and fresh: "buckets rl ip = None"
    and sz: "\<forall>t \<in> set ts. \<bar>t - t0\<bar> * maxRequests rl < 2 ^ 50"
  shows "(0 \<le> d \<and> (\<forall>t\<in>set ts. t - t0 \<le> d) \<longrightarrow>
            int (count_allowed (fst (consume_all rl ip (t0 # ts))))
              \<le> maxRequests rl
                 + \<lfloor>(of_int d :: rat) / of_int (windowMs rl) * of_int (maxRequests rl)\<rfloor>)
       \<and> ((\<forall>t\<in>set ts. t - t0 < windowMs rl) \<longrightarrow>
            int (count_allowed (fst (consume_all rl ip (t0 # ts)))) \<le> 2 * maxRequests rl - 1)
       \<and> ((\<forall>t\<in>set ts. (t - t0) * maxRequests rl < windowMs rl) \<longrightarrow>
            int (count_allowed (fst (consume_all rl ip (t0 # ts)))) \<le> maxRequests rl)
       \<and> (\<forall>r now. \<not> allowed (fst (consume r now ip)) \<longrightarrow>
            remaining (fst (consume r now ip)) = 0 \<and>
            (\<exists>b. buckets (snd (consume r now ip)) ip = Some b \<and>
                 resetTime (fst (consume r now ip)) = Some (lastRefill b + windowMs r)))
       \<and> (maxRequests rl = 5 \<longrightarrow>
            map (\<lambda>r. (allowed r, remaining r, resetTime r))
                (fst (consume_all rl ip [t0, t0, t0, t0, t0, t0]))
            = [(True, 4, None), (True, 3, None), (True, 2, None), (True, 1, None),
               (True, 0, None), (False, 0, Some (t0 + windowMs rl))])"
proof -
  let ?n = "int (count_allowed (fst (consume_all rl ip (t0 # ts))))"
  let ?M = "maxRequests rl" and ?W = "windowMs rl"
  from consume_all_fresh[OF W M fresh sz] obtain l where
    l: "l \<in> insert t0 (set ts)" and n: "?n \<le> ?M + ((l - t0) * ?M) div ?W"
    by blast
  have A: "?n \<le> ?M + \<lfloor>(of_int d :: rat) / of_int ?W * of_int ?M\<rfloor>"
    if d: "0 \<le> d" "\<forall>t\<in>set ts. t - t0 \<le> d" for d
  proof -
    have "l - t0 \<le> d" using l d by auto
    then have "(l - t0) * ?M \<le> d * ?M" using M by (simp add: mult_right_mono)
    then have "((l - t0) * ?M) div ?W \<le> (d * ?M) div ?W"
      using W(1) by (simp add: zdiv_mono1)
    with n show ?thesis unfolding floor_quot_div by linarith
  qed
  have B: "?n \<le> 2 * ?M - 1" if h: "\<forall>t\<in>set ts. t - t0 < ?W"
  proof -
    have "l - t0 < ?W" using l h W(1) by auto
    then have "(l - t0) * ?M < ?W * ?M" using M by (simp add: mult_strict_right_mono)
    then have "((l - t0) * ?M) div ?W < ?M"
      using W(1) by (simp add: int_div_less mult.commute)
    with n show ?thesis by linarith
  qed
  have C: "?n \<le> ?M" if h: "\<forall>t\<in>set ts. (t - t0) * ?M < ?W"
  proof -
    have "(l - t0) * ?M < ?W" using l h W(1) by auto
    then have "((l - t0) * ?M) div ?W < 1"
      using W(1) by (simp add: int_div_less)
    with n show ?thesis by linarith
  qed
  have D: "\<forall>r now. \<not> allowed (fst (consume r now ip)) \<longrightarrow>
            remaining (fst (consume r now ip)) = 0 \<and>
            (\<exists>b. buckets (snd (consume r now ip)) ip = Some b \<and>
                 resetTime (fst (consume r now ip)) = Some (lastRefill b + windowMs r))"
    using consume_denied by blast
  have E: "map (\<lambda>r. (allowed r, remaining r, resetTime r))
                (fst (consume_all rl ip [t0, t0, t0, t0, t0, t0]))
            = [(True, 4, None), (True, 3, None), (True, 2, None), (True, 1, None),
               (True, 0, None), (False, 0, Some (t0 + windowMs rl))]"
    if "?M = 5"
    using that fresh
    by (simp add: consume_all_Cons consume_def refillTokens_def tokensToAdd_zero Let_def)
  from A B C D E show ?thesis by blast
qed

text \<open>The token range assumed by C7 is kept by every call of \<open>consume\<close>.\<close>

lemma consume_tokens_range:
  assumes "1 \<le> maxRequests rl"
    and "\<forall>k b. buckets rl k = Some b \<longrightarrow> 0 \<le> tokens b \<and> tokens b \<le> maxRequests rl"
    and "buckets (snd (consume rl now ip)) k = Some b"
  shows "0 \<le> tokens b \<and> tokens b \<le> maxRequests rl"
proof (cases "buckets rl ip")
  case None
  then show ?thesis using assms
    by (auto simp: consume_def Let_def split: if_splits)
next
  case (Some b0)
  have r: "0 \<le> tokens b0" "tokens b0 \<le> maxRequests rl"
    using assms(2) Some by blast+
  show ?thesis
  proof (cases "k = ip")
    case True
    then show ?thesis using Some r assms(1,3)
      by (auto simp: consume_def refillTokens_def Let_def split: if_splits)
  next
    case False
    then have "buckets rl k = Some b"
      using Some assms(3) by (auto simp: consume_def Let_def split: if_splits)
    then show ?thesis using assms(2) by blast
  qed
qed


lemma limiter5_fields:
  "windowMs limiter5 = 1000" "maxRequests limiter5 = 5" "buckets limiter5 ''k'' = None"
  by (simp_all add: limiter5_def RateLimiter_new_def)

text \<open>The theorem of C3 at the limiter of the test suite (window 1000 ms, quota 5).\<close>

theorem consume_window_quota_witness:
  "0 < windowMs limiter5 \<and> 1 \<le> maxRequests limiter5 \<and> buckets limiter5 ''k'' = None
   \<and> int (count_allowed (fst (consume_all limiter5 ''k'' [0, 0, 0, 0, 0, 200, 400, 600, 800]))) \<le> 9
   \<and> int (count_allowed (fst (consume_all limiter5 ''k'' [0, 0, 0, 0, 0, 0, 100, 199]))) \<le> 5
   \<and> map (\<lambda>r. (allowed r, remaining r, resetTime r))
          (fst (consume_all limiter5 ''k'' [7, 7, 7, 7, 7, 7]))
       = [(True, 4, None), (True, 3, None), (True, 2, None), (True, 1, None),
          (True, 0, None), (False, 0, Some 1007)]"
  using
    consume_window_quota[where rl = limiter5 and ip = "''k''" and ?t0.0 = 0
      and ts = "[0, 0, 0, 0, 200, 400, 600, 800]" and d = 999]
    consume_window_quota[where rl = limiter5 and ip = "''k''" and ?t0.0 = 0
      and ts = "[0, 0, 0, 0, 0, 100, 199]" and d = 0]
    consume_window_quota[where rl = limiter5 and ip = "''k''" and ?t0.0 = 7
      and ts = "[]" and d = 0]
  by (simp add: limiter5_fields)

text \<open>
  Claim C3 as stated fails: with quota 5 and a window of 1000 ms, nine calls at
  0, 0, 0, 0, 0, 200, 400, 600 and 800 ms, all inside one window, are all allowed.
\<close>

theorem consume_window_quota_counterexample:
  "\<not> int (count_allowed (fst (consume_all (RateLimiter_new (Some 1000) (Some 5)) ''k''
            [0, 0, 0, 0, 0, 200, 400, 600, 800])))
      \<le> maxRequests (RateLimiter_new (Some 1000) (Some 5))"
  by code_simp

text \<open>
  Claim C7, as the code has it.  On a call of \<open>consume\<close> for a key that has a bucket
  with a token count between 0 and \<open>maxRequests\<close>, the increment is the floor of
  \<open>elapsed / windowMs * maxRequests\<close> as double arithmetic gives it, the quotient and the
  product each rounded.  For an elapsed time that is not negative, with
  \<open>elapsed * maxRequests\<close> below \<open>2 ^ 51\<close>, that is the exact floor or one less; for a
  clock reading before \<open>lastRefill\<close> it is not positive.  A positive increment is added,
  capped at \<open>maxRequests\<close>, and \<open>lastRefill\<close> moves to \<open>now\<close>; otherwise the bucket is
  unchanged.  The count never exceeds \<open>maxRequests\<close>, and once a full window has elapsed the
  refilled bucket holds exactly \<open>maxRequests\<close> tokens (the call is then allowed and leaves
  \<open>maxRequests - 1\<close>).  The bucket stored by \<open>consume\<close> is the refilled one, less the
  token the call takes.
\<close>

theorem refill_in_doubles:
  assumes W: "0 < windowMs rl" "windowMs rl \<le> 2 ^ 53"
    and M: "1 \<le> maxRequests rl" "maxRequests rl < 2 ^ 53"
    and b: "buckets rl ip = Some b"
    and lo: "0 \<le> tokens b" and hi: "tokens b \<le> maxRequests rl"
  shows "(let elapsed = now - lastRefill b;
              toAdd = \<lfloor>fl (fl (of_int elapsed / of_int (windowMs rl))
                            * of_int (maxRequests rl))\<rfloor>;
              exact = \<lfloor>(of_int elapsed :: rat) / of_int (windowMs rl)
                        * of_int (maxRequests rl)\<rfloor>;
              b' = refillTokens rl now b
          in tokens b' = (if 0 < toAdd then min (maxRequests rl) (tokens b + toAdd) else tokens b)
           \<and> tokens b' \<le> maxRequests rl
           \<and> lastRefill b' = (if 0 < toAdd then now else lastRefill b)
           \<and> (0 \<le> elapsed \<and> elapsed * maxRequests rl < 2 ^ 51 \<longrightarrow>
                 exact - 1 \<le> toAdd \<and> toAdd \<le> exact)
           \<and> (elapsed < 0 \<longrightarrow> toAdd \<le> 0)
           \<and> (windowMs rl \<le> elapsed \<longrightarrow>
                 tokens b' = maxRequests rl
               \<and> fst (consume rl now ip)
                   = \<lparr> allowed = True, remaining = maxRequests rl - 1, resetTime = None \<rparr>)
           \<and> buckets (snd (consume rl now ip)) ip
               = Some (if 0 < tokens b' then b'\<lparr> tokens := tokens b' - 1 \<rparr> else b'))"
proof -
  let ?tp = "now - lastRefill b"
  let ?a = "tokensToAdd rl ?tp"
  let ?x = "(?tp * maxRequests rl) div windowMs rl"
  have near: "?x - 1 \<le> ?a \<and> ?a \<le> ?x" if "0 \<le> ?tp" "?tp * maxRequests rl < 2 ^ 51"
  proof (cases "?tp = 0")
    case True
    then show ?thesis by (simp add: tokensToAdd_zero)
  next
    case False
    with that have "0 < ?tp" by simp
    from double_floor_bounds[OF W M(1) this that(2)]
    show ?thesis by (simp add: tokensToAdd_def)
  qed
  have behind: "?a \<le> 0" if "?tp < 0"
  proof -
    have "(of_int ?tp :: rat) / of_int (windowMs rl) \<le> 0"
      using that W(1) by (simp add: divide_nonpos_pos)
    then have "fl (of_int ?tp / of_int (windowMs rl)) \<le> 0" by (rule fl_nonpos)
    then have "fl (of_int ?tp / of_int (windowMs rl)) * of_int (maxRequests rl) \<le> 0"
      using M(1) by (simp add: mult_le_0_iff)
    then have "fl (fl (of_int ?tp / of_int (windowMs rl)) * of_int (maxRequests rl)) \<le> 0"
      by (rule fl_nonpos)
    then show ?thesis unfolding tokensToAdd_def by simp
  qed
  have full: "maxRequests rl \<le> ?a" if "windowMs rl \<le> ?tp"
    using tokensToAdd_full[OF W(1) M that] .
  have a: "\<lfloor>fl (fl (of_int ?tp / of_int (windowMs rl)) * of_int (maxRequests rl))\<rfloor> = ?a"
    by (simp add: tokensToAdd_def)
  show ?thesis
    unfolding Let_def a floor_quot_div
    using near behind full b lo hi M(1)
    by (auto simp: refillTokens_def consume_def Let_def min_def)
qed

text \<open>The theorem of C7 on a drained bucket, 1100 ms after its last refill.\<close>

theorem refill_in_doubles_witness:
  "0 < windowMs (limiter5\<lparr> buckets := [''k'' \<mapsto> drained] \<rparr>)
   \<and> tokens (refillTokens (limiter5\<lparr> buckets := [''k'' \<mapsto> drained] \<rparr>) 1100 drained) = 5
   \<and> fst (consume (limiter5\<lparr> buckets := [''k'' \<mapsto> drained] \<rparr>) 1100 ''k'')
       = \<lparr> allowed = True, remaining = 4, resetTime = None \<rparr>"
  using refill_in_doubles[of "limiter5\<lparr> buckets := [''k'' \<mapsto> drained] \<rparr>" "''k''" drained 1100]
  by (simp add: limiter5_fields drained_def Let_def)

text \<open>
  Claim C7 as stated fails: at the default limiter (window 900000 ms, quota 100) and
  513000 ms after the last refill, the exact floor of
  \<open>elapsed / windowMs * maxRequests\<close> is 57, and the refill adds 56 tokens.
\<close>

theorem refill_in_doubles_counterexample:
  "tokens (refillTokens (RateLimiter_new None None) 513000 drained) = 56
   \<and> min (maxRequests (RateLimiter_new None None))
         (tokens drained
          + \<lfloor>(of_int (513000 - lastRefill drained) :: rat)
               / of_int (windowMs (RateLimiter_new None None))
               * of_int (maxRequests (RateLimiter_new None None))\<rfloor>) = 57"
  by code_simp

section \<open>Properties of the broadcaster and of a flush\<close>

lemma broadcast_client_Inr:
  "\<exists>s'. broadcast_client m c s = Inr s'"
  by (simp add: broadcast_client_def client_send_def)

lemma forEach_broadcast_client:
  "\<exists>s'. forEach (broadcast_client m) cs s = Inr s'
     \<and> sent s' = sent s @ map (\<lambda>c. (cid c, m)) (filter (\<lambda>c. readyState c = 1 \<and> \<not> sendThrows c) cs)
     \<and> wsClients (gen s') = filter (\<lambda>c. c \<notin> set (filter (\<lambda>c. readyState c = 1 \<and> sendThrows c) cs)) (wsClients (gen s))
     \<and> (gen s')\<lparr> wsClients := [] \<rparr> = (gen s)\<lparr> wsClients := [] \<rparr>
     \<and> writes s' = writes s \<and> inflight s' = inflight s \<and> broadcasts s' = broadcasts s"
proof (induction cs arbitrary: s)
  case Nil
  then show ?case by simp
next
  case (Cons c cs)
  show ?case
  proof (cases "readyState c = 1")
    case False
    then have "broadcast_client m c s = Inr s" by (simp add: broadcast_client_def)
    with Cons.IH[of s] False show ?thesis by auto
  next
    case True
    show ?thesis
    proof (cases "sendThrows c")
      case False
      let ?s1 = "s\<lparr> sent := sent s @ [(cid c, m)] \<rparr>"
      have "broadcast_client m c s = Inr ?s1"
        using True False by (simp add: broadcast_client_def client_send_def)
      with Cons.IH[of ?s1] True False show ?thesis by auto
    next
      case thr: True
      let ?s1 = "s\<lparr> console_error := console_error s @ [''Error broadcasting to client: '' @ ''send failed''],
                      gen := removeClient c (gen s) \<rparr>"
      have "broadcast_client m c s = Inr ?s1"
        using True thr by (simp add: broadcast_client_def client_send_def)
      with Cons.IH[of ?s1] True thr show ?thesis
        by (auto simp: removeClient_def removeAll_filter_not_eq intro: filter_cong)
    qed
  qed
qed

lemma broadcast_result:
  "\<exists>s'. broadcast m s = Inr s'
     \<and> broadcasts s' = broadcasts s @ [m]
     \<and> sent s' = sent s @ map (\<lambda>c. (cid c, m))
                    (filter (\<lambda>c. readyState c = 1 \<and> \<not> sendThrows c) (wsClients (gen s)))
     \<and> wsClients (gen s') = filter (\<lambda>c. \<not> (readyState c = 1 \<and> sendThrows c)) (wsClients (gen s))
     \<and> (gen s')\<lparr> wsClients := [] \<rparr> = (gen s)\<lparr> wsClients := [] \<rparr>
     \<and> writes s' = writes s \<and> inflight s' = inflight s"
proof -
  let ?s0 = "s\<lparr> broadcasts := broadcasts s @ [m] \<rparr>"
  from forEach_broadcast_client[of m "wsClients (gen s)" ?s0]
  obtain s' where s': "forEach (broadcast_client m) (wsClients (gen s)) ?s0 = Inr s'"
     "sent s' = sent ?s0 @ map (\<lambda>c. (cid c, m)) (filter (\<lambda>c. readyState c = 1 \<and> \<not> sendThrows c) (wsClients (gen s)))"
     "wsClients (gen s') = filter (\<lambda>c. c \<notin> set (filter (\<lambda>c. readyState c = 1 \<and> sendThrows c) (wsClients (gen s)))) (wsClients (gen ?s0))"
     "(gen s')\<lparr> wsClients := [] \<rparr> = (gen ?s0)\<lparr> wsClients := [] \<rparr>"
     "writes s' = writes ?s0" "inflight s' = inflight ?s0" "broadcasts s' = broadcasts ?s0"
    by blast
  have "wsClients (gen s') = filter (\<lambda>c. \<not> (readyState c = 1 \<and> sendThrows c)) (wsClients (gen s))"
    unfolding s'(3) by (auto intro: filter_cong)
  with s' show ?thesis by (simp add: broadcast_def)
qed

text \<open>
  Claim C2, as the code has it.  \<open>broadcast\<close> returns normally whatever the
  subscribers do.  The message is handed, once and in set order, to every subscriber whose
  connection is open and whose \<open>send\<close> does not throw.  A subscriber whose \<open>send\<close>
  throws is deleted from the set in the same pass.  A subscriber whose connection is not
  open is skipped: it receives nothing and stays in the set.
\<close>

theorem broadcast_fanout:
  "\<exists>s'. broadcast m s = Inr s'
     \<and> sent s' = sent s @ map (\<lambda>c. (cid c, m))
                    (filter (\<lambda>c. readyState c = 1 \<and> \<not> sendThrows c) (wsClients (gen s)))
     \<and> wsClients (gen s')
         = filter (\<lambda>c. \<not> (readyState c = 1 \<and> sendThrows c)) (wsClients (gen s))"
  using broadcast_result[of m s] by blast

lemma hub4_clients: "wsClients (gen hub4) = [open1, closed2, broken4, open3]"
  by (simp add: hub4_def gen_run_def server_new_def DataGenerator_new_def addClient_def
      open1_def closed2_def broken4_def open3_def)

lemma hub4_sent: "sent hub4 = []"
  by (simp add: hub4_def gen_run_def server_new_def)

text \<open>
  The theorem of C2 on a set of four subscribers: two open, one closed, one whose
  \<open>send\<close> throws.
\<close>

theorem broadcast_fanout_witness:
  "\<exists>s'. broadcast (BatchMsg [] 0) hub4 = Inr s'
     \<and> sent s' = [(1, BatchMsg [] 0), (3, BatchMsg [] 0)]
     \<and> wsClients (gen s') = [open1, closed2, open3]"
  using broadcast_fanout[of "BatchMsg [] 0" hub4]
  by (simp add: hub4_clients hub4_sent open1_def closed2_def broken4_def open3_def)

text \<open>
  Claim C2 as stated fails on the set of the specification's own example (one closed and
  two open subscribers): both open ones receive the message, and the closed one is still
  a member afterwards.
\<close>

theorem broadcast_fanout_counterexample:
  "broadcast (BatchMsg [] 0) hub3
     = Inr (hub3\<lparr> broadcasts := [BatchMsg [] 0],
                  sent := [(1, BatchMsg [] 0), (3, BatchMsg [] 0)] \<rparr>)
   \<and> wsClients (gen hub3) = [open1, closed2, open3]
   \<and> readyState closed2 \<noteq> 1"
  by (simp add: hub3_def gen_run_def server_new_def DataGenerator_new_def addClient_def
      open1_def closed2_def open3_def broadcast_def broadcast_client_def client_send_def)

lemma resume_failed:
  "processBuffer_resume recs (Inl (Error msg)) s
     = s\<lparr> console_error := console_error s @ [''Error processing buffer: '' @ msg] \<rparr>"
  by (simp add: processBuffer_resume_def)

lemma resume_ok:
  "\<exists>s'. processBuffer_resume recs (Inr u) s = s'
     \<and> broadcasts s' = broadcasts s @ [BatchMsg recs (totalGenerated (gen s))]
     \<and> sent s' = sent s @ map (\<lambda>c. (cid c, BatchMsg recs (totalGenerated (gen s))))
                    (filter (\<lambda>c. readyState c = 1 \<and> \<not> sendThrows c) (wsClients (gen s)))
     \<and> (gen s')\<lparr> wsClients := [] \<rparr> = (gen s)\<lparr> wsClients := [] \<rparr>
     \<and> writes s' = writes s \<and> inflight s' = inflight s"
  using broadcast_result[of "BatchMsg recs (totalGenerated (gen s))" s]
  by (auto simp: processBuffer_resume_def)

text \<open>
  Claim C1, as the code has it.  When the awaited \<open>createBatch\<close> call of a flush fails,
  the error is logged and nothing else happens: \<open>broadcast\<close> is not called and no
  subscriber receives the batch, while the generator (running flag, timer, buffer, counter)
  is untouched, so the next tick still generates a record.  When the call succeeds,
  \<open>broadcast\<close> is called with that batch.
\<close>

theorem failed_write_not_broadcast:
  assumes "i < length (inflight s)"
  shows "(let s' = gen_step s (Settled i (Inl (Error msg)))
          in broadcasts s' = broadcasts s \<and> sent s' = sent s \<and> gen s' = gen s
           \<and> writes s' = writes s
           \<and> console_error s' = console_error s @ [''Error processing buffer: '' @ msg]
           \<and> inflight s' = take i (inflight s) @ drop (Suc i) (inflight s)
           \<and> (interval (gen s) \<noteq> None \<longrightarrow>
                totalGenerated (gen (gen_step s' (Tick now r1 r2 r3)))
                  = totalGenerated (gen s) + 1))
       \<and> broadcasts (gen_step s (Settled i (Inr ())))
           = broadcasts s @ [BatchMsg (inflight s ! i) (totalGenerated (gen s))]"
proof -
  have "broadcasts (gen_step s (Settled i (Inr ())))
           = broadcasts s @ [BatchMsg (inflight s ! i) (totalGenerated (gen s))]"
    using assms
      resume_ok[of "inflight s ! i" "()" "s\<lparr> inflight := take i (inflight s) @ drop (Suc i) (inflight s) \<rparr>"]
    by simp
  moreover have "totalGenerated (gen (tick now r1 r2 r3 t)) = totalGenerated (gen t) + 1" for t
    by (simp add: tick_def processBuffer_begin_def Let_def)
  ultimately show ?thesis
    using assms by (simp add: resume_failed Let_def)
qed

text \<open>
  Claim C1 as stated fails: a running producer with batch size 1 and one open subscriber
  flushes one batch, the write fails, and no broadcast has been made.
\<close>

theorem failed_write_not_broadcast_counterexample:
  "broadcasts (gen_run (server_new None (Some 1)) failed_write) = []
   \<and> sent (gen_run (server_new None (Some 1)) failed_write) = []
   \<and> length (writes (gen_run (server_new None (Some 1)) failed_write)) = 1
   \<and> wsClients (gen (gen_run (server_new None (Some 1)) failed_write)) = [open1]
   \<and> readyState open1 = 1"
  by (simp add: failed_write_def gen_run_def server_new_def DataGenerator_new_def addClient_def
      open1_def start_def tick_def processBuffer_begin_def processBuffer_resume_def Let_def)

lemma one_inflight_facts:
  "length (inflight one_inflight) = 1" "interval (gen one_inflight) = Some 20"
  "totalGenerated (gen one_inflight) = 1" "broadcasts one_inflight = []"
  by (simp_all add: one_inflight_def gen_run_def server_new_def DataGenerator_new_def addClient_def
      open1_def start_def tick_def processBuffer_begin_def Let_def)

text \<open>The theorem of C1 on a server with one write in flight.\<close>

theorem failed_write_not_broadcast_witness:
  "0 < length (inflight one_inflight)
   \<and> broadcasts (gen_step one_inflight (Settled 0 (Inl (Error ''db down'')))) = []
   \<and> totalGenerated (gen (gen_step (gen_step one_inflight (Settled 0 (Inl (Error ''db down''))))
                                   (Tick 1 0 0 0))) = 2"
  using failed_write_not_broadcast[of 0 one_inflight "''db down''" 1 0 0 0]
  by (simp add: one_inflight_facts resume_failed Let_def)

section \<open>Properties of generateRecord\<close>

lemma Math_round_bounds:
  assumes "of_int a \<le> x" and "x \<le> of_int b"
  shows "a \<le> Math_round x \<and> Math_round x \<le> b"
proof -
  have "of_int a \<le> x + 1 / 2" using assms(1) by simp
  then have lo: "a \<le> \<lfloor>x + 1 / 2\<rfloor>" by (simp add: le_floor_iff)
  have "x + 1 / 2 < of_int (b + 1)" using assms(2) by simp
  then have "\<lfloor>x + 1 / 2\<rfloor> < b + 1" by (simp only: floor_less_iff)
  with lo show ?thesis by (simp add: Math_round_def)
qed

lemma rounded_bounds:
  assumes "of_int a \<le> v * 100" and "v * 100 \<le> of_int b"
  shows "of_int a / 100 \<le> (of_int (Math_round (v * 100)) :: rat) / 100
       \<and> (of_int (Math_round (v * 100)) :: rat) / 100 \<le> of_int b / 100"
  using Math_round_bounds[OF assms] by (simp add: divide_le_cancel)

lemma Math_round_of_int: "Math_round (of_int n) = n"
  unfolding Math_round_def by (rule floor_unique) simp_all

lemma category_index:
  assumes "0 \<le> (r::rat)" and "r < 1"
  shows "index [''sensor'', ''metric'', ''event'', ''alert'', ''system''] \<lfloor>r * 5\<rfloor>
           \<in> {Some ''sensor'', Some ''metric'', Some ''event'', Some ''alert'', Some ''system''}"
proof -
  define k where "k = \<lfloor>r * 5\<rfloor>"
  have "0 \<le> k" using assms(1) by (simp add: k_def)
  moreover have "k < 5" using assms(2) by (simp add: k_def floor_less_iff)
  ultimately have "k = 0 \<or> k = 1 \<or> k = 2 \<or> k = 3 \<or> k = 4" by arith
  then show ?thesis
    unfolding k_def[symmetric] by (auto simp: index_def)
qed

text \<open>
  Claim C9.  With the draws of \<open>Math.random()\<close> in \<open>[0, 1)\<close> and the category list
  of the constructor, the record returned by \<open>generateRecord\<close> has a category of the five
  listed, a value that is a whole number of hundredths between 0 and 1000, and within the
  range of its category: sensor 20 to 80, metric 0 to 1000, event a whole number from 0 to
  99, alert 0 to 10, system 50 to 100.
\<close>

theorem generateRecord_ranges:
  assumes c0: "0 \<le> r1" and c1: "r1 < 1" and v0: "0 \<le> r2" and v1: "r2 < 1"
    and cats: "categories g = [''sensor'', ''metric'', ''event'', ''alert'', ''system'']"
  shows "(let d = generateRecord g now r1 r2 r3
          in 0 \<le> val d \<and> val d \<le> 1000
           \<and> (\<exists>k::int. val d = of_int k / 100)
           \<and> (\<exists>c \<in> set (categories g). category d = Some c)
           \<and> (category d = Some ''sensor'' \<longrightarrow> 20 \<le> val d \<and> val d \<le> 80)
           \<and> (category d = Some ''metric'' \<longrightarrow> 0 \<le> val d \<and> val d \<le> 1000)
           \<and> (category d = Some ''event'' \<longrightarrow>
                 (\<exists>n::int. 0 \<le> n \<and> n \<le> 99 \<and> val d = of_int n))
           \<and> (category d = Some ''alert'' \<longrightarrow> 0 \<le> val d \<and> val d \<le> 10)
           \<and> (category d = Some ''system'' \<longrightarrow> 50 \<le> val d \<and> val d \<le> 100))"
proof -
  let ?c = "index (categories g) \<lfloor>r1 * of_nat (length (categories g))\<rfloor>"
  let ?v = "category_value ?c r2"
  let ?d = "generateRecord g now r1 r2 r3"
  have val: "val ?d = of_int (Math_round (?v * 100)) / 100" and cat: "category ?d = ?c"
    by (simp_all add: generateRecord_def Let_def)
  have c: "?c \<in> {Some ''sensor'', Some ''metric'', Some ''event'', Some ''alert'', Some ''system''}"
    using category_index[OF c0 c1] by (simp add: cats)
  have hundredths: "\<exists>k::int. val ?d = of_int k / 100"
    unfolding val by blast
  have member: "\<exists>c \<in> set (categories g). category ?d = Some c"
    using c by (auto simp: cat cats)
  have sensor: "20 \<le> val ?d \<and> val ?d \<le> 80" if "?c = Some ''sensor''"
  proof -
    have "?v = 20 + r2 * 60" using that by (simp add: category_value_def)
    moreover have "of_int 2000 \<le> (20 + r2 * 60) * 100" "(20 + r2 * 60) * 100 \<le> of_int 8000"
      using v0 v1 by simp_all
    ultimately show ?thesis
      using rounded_bounds[of 2000 "20 + r2 * 60" 8000] by (simp add: val)
  qed
  have metric: "0 \<le> val ?d \<and> val ?d \<le> 1000" if "?c = Some ''metric''"
  proof -
    have "?v = r2 * 1000" using that by (simp add: category_value_def)
    moreover have "of_int 0 \<le> (r2 * 1000) * 100" "(r2 * 1000) * 100 \<le> of_int 100000"
      using v0 v1 by simp_all
    ultimately show ?thesis
      using rounded_bounds[of 0 "r2 * 1000" 100000] by (simp add: val)
  qed
  have event: "\<exists>n::int. 0 \<le> n \<and> n \<le> 99 \<and> val ?d = of_int n" if "?c = Some ''event''"
  proof -
    have "?v = of_int \<lfloor>r2 * 100\<rfloor>" using that by (simp add: category_value_def)
    then have "?v * 100 = of_int (\<lfloor>r2 * 100\<rfloor> * 100)" by simp
    then have "Math_round (?v * 100) = \<lfloor>r2 * 100\<rfloor> * 100"
      by (simp only: Math_round_of_int)
    then have "val ?d = of_int \<lfloor>r2 * 100\<rfloor>" by (simp add: val)
    moreover have "0 \<le> \<lfloor>r2 * 100\<rfloor>" using v0 by simp
    moreover have "\<lfloor>r2 * 100\<rfloor> < 100" using v1 by (simp add: floor_less_iff)
    ultimately show ?thesis by (intro exI[of _ "\<lfloor>r2 * 100\<rfloor>"]) simp
  qed
  have alert: "0 \<le> val ?d \<and> val ?d \<le> 10" if "?c = Some ''alert''"
  proof -
    have "?v = r2 * 10" using that by (simp add: category_value_def)
    moreover have "of_int 0 \<le> (r2 * 10) * 100" "(r2 * 10) * 100 \<le> of_int 1000"
      using v0 v1 by simp_all
    ultimately show ?thesis
      using rounded_bounds[of 0 "r2 * 10" 1000] by (simp add: val)
  qed
  have system: "50 \<le> val ?d \<and> val ?d \<le> 100" if "?c = Some ''system''"
  proof -
    have "?v = 50 + r2 * 50" using that by (simp add: category_value_def)
    moreover have "of_int 5000 \<le> (50 + r2 * 50) * 100" "(50 + r2 * 50) * 100 \<le> of_int 10000"
      using v0 v1 by simp_all
    ultimately show ?thesis
      using rounded_bounds[of 5000 "50 + r2 * 50" 10000] by (simp add: val)
  qed
  have range: "0 \<le> val ?d \<and> val ?d \<le> 1000"
  proof -
    consider "?c = Some ''sensor''" | "?c = Some ''metric''" | "?c = Some ''event''"
      | "?c = Some ''alert''" | "?c = Some ''system''"
      using c by blast
    then show ?thesis
    proof cases
      case 1 with sensor show ?thesis by linarith
    next
      case 2 with metric show ?thesis by linarith
    next
      case 3
      with event obtain n :: int where "0 \<le> n" "n \<le> 99" "val ?d = of_int n" by blast
      then show ?thesis by simp
    next
      case 4 with alert show ?thesis by linarith
    next
      case 5 with system show ?thesis by linarith
    qed
  qed
  show ?thesis
    unfolding Let_def cat
    using range hundredths member sensor metric event alert system
    by (simp add: cat)
qed

text \<open>The theorem of C9 on the draws 1/2, 1/3 and 9/10: an event record of value 33.\<close>

theorem generateRecord_ranges_witness:
  "category (generateRecord (DataGenerator_new None None) 7 (1 / 2) (1 / 3) (9 / 10)) = Some ''event''
   \<and> val (generateRecord (DataGenerator_new None None) 7 (1 / 2) (1 / 3) (9 / 10)) = 33
   \<and> (\<exists>n::int. 0 \<le> n \<and> n \<le> 99
        \<and> val (generateRecord (DataGenerator_new None None) 7 (1 / 2) (1 / 3) (9 / 10)) = of_int n)"
proof -
  have e: "generateRecord (DataGenerator_new None None) 7 (1 / 2) (1 / 3) (9 / 10)
        = \<lparr> timestamp = 7, val = 33, category = Some ''event'',
            meta = \<lparr> source = ''generator-4'', batch = 0 \<rparr> \<rparr>"
    by code_simp
  have c: "categories (DataGenerator_new None None)
             = [''sensor'', ''metric'', ''event'', ''alert'', ''system'']"
    by (simp add: DataGenerator_new_def)
  show ?thesis
    using generateRecord_ranges[where ?r1.0 = "1 / 2" and ?r2.0 = "1 / 3"
        and g = "DataGenerator_new None None" and now = 7 and ?r3.0 = "9 / 10"]
    by (simp add: e c Let_def)
qed

section \<open>Properties of the producer\<close>

lemma gen_run_snoc: "gen_run s (es @ [e]) = gen_step (gen_run s es) e"
  by (simp add: gen_run_def)

lemma core_fields:
  assumes "g'\<lparr> wsClients := [] \<rparr> = (g::DataGenerator)\<lparr> wsClients := [] \<rparr>"
  shows "batchSize g' = batchSize g" "buffer g' = buffer g" "isRunning g' = isRunning g"
    "interval g' = interval g" "totalGenerated g' = totalGenerated g" "rate g' = rate g"
proof -
  obtain a b c d e f w h where g: "g = \<lparr> rate = a, batchSize = b, isRunning = c, interval = d,
      buffer = e, totalGenerated = f, wsClients = w, categories = h \<rparr>"
    by (cases g) simp
  obtain a' b' c' d' e' f' w' h' where g': "g' = \<lparr> rate = a', batchSize = b', isRunning = c',
      interval = d', buffer = e', totalGenerated = f', wsClients = w', categories = h' \<rparr>"
    by (cases g') simp
  from assms show "batchSize g' = batchSize g" "buffer g' = buffer g" "isRunning g' = isRunning g"
    "interval g' = interval g" "totalGenerated g' = totalGenerated g" "rate g' = rate g"
    by (simp_all add: g g')
qed

lemma resume_frame:
  "batchSize (gen (processBuffer_resume recs outcome s)) = batchSize (gen s)"
  "buffer (gen (processBuffer_resume recs outcome s)) = buffer (gen s)"
  "isRunning (gen (processBuffer_resume recs outcome s)) = isRunning (gen s)"
  "interval (gen (processBuffer_resume recs outcome s)) = interval (gen s)"
  "writes (processBuffer_resume recs outcome s) = writes s"
proof -
  have *: "(gen (processBuffer_resume recs outcome s))\<lparr> wsClients := [] \<rparr> = (gen s)\<lparr> wsClients := [] \<rparr>
        \<and> writes (processBuffer_resume recs outcome s) = writes s"
  proof (cases outcome)
    case (Inl e)
    then show ?thesis by (cases e) (simp add: resume_failed)
  next
    case (Inr u)
    then show ?thesis using resume_ok[of recs u s] by simp
  qed
  from * have c: "(gen (processBuffer_resume recs outcome s))\<lparr> wsClients := [] \<rparr>
                   = (gen s)\<lparr> wsClients := [] \<rparr>"
    by blast
  show "batchSize (gen (processBuffer_resume recs outcome s)) = batchSize (gen s)"
    "buffer (gen (processBuffer_resume recs outcome s)) = buffer (gen s)"
    "isRunning (gen (processBuffer_resume recs outcome s)) = isRunning (gen s)"
    "interval (gen (processBuffer_resume recs outcome s)) = interval (gen s)"
    by (rule core_fields[OF c])+
  show "writes (processBuffer_resume recs outcome s) = writes s"
    using * by blast
qed

lemma gen_step_below_batch:
  assumes "1 \<le> batchSize (gen s)" and "int (length (buffer (gen s))) < batchSize (gen s)"
  shows "batchSize (gen (gen_step s e)) = batchSize (gen s)
       \<and> int (length (buffer (gen (gen_step s e)))) < batchSize (gen s)"
proof (cases e)
  case (Tick now r1 r2 r3)
  then show ?thesis using assms
    by (simp add: tick_def processBuffer_begin_def Let_def)
next
  case (Settled i outcome)
  then show ?thesis using assms by (simp add: resume_frame)
next
  case Start
  then show ?thesis using assms by (simp add: start_def)
next
  case Stop
  then show ?thesis using assms by (simp add: stop_def processBuffer_begin_def Let_def)
next
  case (SetRate r)
  then show ?thesis using assms
    by (simp add: setRate_def stop_def start_def processBuffer_begin_def Let_def)
next
  case (AddClient ws)
  then show ?thesis using assms by (simp add: addClient_def)
next
  case (RemoveClient ws)
  then show ?thesis using assms by (simp add: removeClient_def)
qed

lemma gen_run_below_batch:
  assumes "1 \<le> batchSize (gen s)" and "int (length (buffer (gen s))) < batchSize (gen s)"
  shows "batchSize (gen (gen_run s es)) = batchSize (gen s)
       \<and> int (length (buffer (gen (gen_run s es)))) < batchSize (gen s)"
proof (induction es rule: rev_induct)
  case Nil
  then show ?case using assms by (simp add: gen_run_def)
next
  case (snoc e es)
  then show ?case
    using gen_step_below_batch[of "gen_run s es" e] assms(1) by (simp add: gen_run_snoc)
qed

text \<open>
  Claim C6.  In every state a server with a positive batch size reaches from its
  construction, the pending buffer is shorter than \<open>batchSize\<close>.  A tick of the running
  producer flushes exactly when the record it adds brings the length to \<open>batchSize\<close>: the
  whole buffer (of that length) is handed to \<open>createBatch\<close> in one call and the buffer is
  emptied; any other tick hands over nothing and only appends.  \<open>stop\<close> on a running
  producer with a non-empty buffer hands exactly that remainder over in one call, empties
  the buffer, and leaves the producer stopped with its timer cleared.
\<close>

theorem flush_at_batchSize:
  assumes "1 \<le> batchSize (gen (server_new optRate optBatchSize))"
  shows "(let s = gen_run (server_new optRate optBatchSize) es;
              d = generateRecord (gen s) now r1 r2 r3;
              s' = gen_step s (Tick now r1 r2 r3)
          in int (length (buffer (gen s))) < batchSize (gen s)
           \<and> (interval (gen s) \<noteq> None \<longrightarrow>
                (if int (length (buffer (gen s))) + 1 = batchSize (gen s)
                 then writes s' = writes s @ [buffer (gen s) @ [d]] \<and> buffer (gen s') = []
                 else writes s' = writes s \<and> buffer (gen s') = buffer (gen s) @ [d]))
           \<and> (isRunning (gen s) \<and> buffer (gen s) \<noteq> [] \<longrightarrow>
                writes (stop s) = writes s @ [buffer (gen s)]
              \<and> buffer (gen (stop s)) = []
              \<and> \<not> isRunning (gen (stop s))
              \<and> interval (gen (stop s)) = None))"
proof -
  let ?s = "gen_run (server_new optRate optBatchSize) es"
  have "int (length (buffer (gen (server_new optRate optBatchSize))))
          < batchSize (gen (server_new optRate optBatchSize))"
    using assms by (simp add: server_new_def DataGenerator_new_def)
  from gen_run_below_batch[OF assms this, of es]
  have below: "int (length (buffer (gen ?s))) < batchSize (gen ?s)"
    by simp
  have tick: "if int (length (buffer (gen ?s))) + 1 = batchSize (gen ?s)
        then writes (gen_step ?s (Tick now r1 r2 r3))
               = writes ?s @ [buffer (gen ?s) @ [generateRecord (gen ?s) now r1 r2 r3]]
           \<and> buffer (gen (gen_step ?s (Tick now r1 r2 r3))) = []
        else writes (gen_step ?s (Tick now r1 r2 r3)) = writes ?s
           \<and> buffer (gen (gen_step ?s (Tick now r1 r2 r3)))
               = buffer (gen ?s) @ [generateRecord (gen ?s) now r1 r2 r3]"
    if "interval (gen ?s) \<noteq> None"
    using that below by (auto simp: tick_def processBuffer_begin_def Let_def)
  have stop: "writes (stop ?s) = writes ?s @ [buffer (gen ?s)]
              \<and> buffer (gen (stop ?s)) = []
              \<and> \<not> isRunning (gen (stop ?s))
              \<and> interval (gen (stop ?s)) = None"
    if "isRunning (gen ?s)" "buffer (gen ?s) \<noteq> []"
    using that by (simp add: stop_def processBuffer_begin_def Let_def)
  show ?thesis
    unfolding Let_def using below tick stop by blast
qed

lemma half_batch_facts:
  "isRunning (gen half_batch)" "interval (gen half_batch) = Some 10" "batchSize (gen half_batch) = 3"
  "length (buffer (gen half_batch)) = 2" "writes half_batch = []"
  "totalGenerated (gen half_batch) = 2" "rate (gen half_batch) = 100"
  by (simp_all add: half_batch_def gen_run_def server_new_def DataGenerator_new_def start_def
      tick_def processBuffer_begin_def Let_def)

text \<open>
  The theorem of C6 on a producer of batch size 3 holding two records: the third tick
  flushes all three, and \<open>stop\<close> instead flushes the two.
\<close>

theorem flush_at_batchSize_witness:
  "1 \<le> batchSize (gen (server_new (Some 100) (Some 3)))
   \<and> length (buffer (gen half_batch)) = 2
   \<and> map length (writes (gen_step half_batch (Tick 20 0 0 0))) = [3]
   \<and> buffer (gen (gen_step half_batch (Tick 20 0 0 0))) = []
   \<and> writes (stop half_batch) = [buffer (gen half_batch)]
   \<and> buffer (gen (stop half_batch)) = []
   \<and> \<not> isRunning (gen (stop half_batch))"
proof -
  have b: "1 \<le> batchSize (gen (server_new (Some 100) (Some 3)))"
    by (simp add: server_new_def DataGenerator_new_def)
  have ne: "buffer (gen half_batch) \<noteq> []"
    using half_batch_facts(4) by auto
  show ?thesis
    using b ne flush_at_batchSize[OF b, where es = "[Start, Tick 0 0 0 0, Tick 10 0 0 0]"
        and now = 20 and ?r1.0 = 0 and ?r2.0 = 0 and ?r3.0 = 0]
    by (simp add: half_batch_def[symmetric] half_batch_facts Let_def)
qed

text \<open>
  Claim C8.  \<open>setRate\<close> runs \<open>stop\<close>, stores the new rate and runs \<open>start\<close> when the
  producer was running, and only stores the rate otherwise.  Afterwards the rate is the new
  one, the producer runs exactly if it ran before, and then on a timer of period
  \<open>1000 / newRate\<close>; \<open>totalGenerated\<close> is unchanged; and no buffered record is lost:
  the records handed to \<open>createBatch\<close> so far followed by the buffer are the same sequence
  as before.  For a running producer the buffered records are the final flush of the
  \<open>stop\<close>; for a stopped one the buffer is untouched.  A rate of zero is left out: its
  period \<open>1000 / 0\<close> is not a rational number.
\<close>

theorem setRate_restart:
  assumes "newRate \<noteq> 0"
  shows "(let s' = setRate newRate s
          in rate (gen s') = newRate
           \<and> isRunning (gen s') = isRunning (gen s)
           \<and> totalGenerated (gen s') = totalGenerated (gen s)
           \<and> concat (writes s') @ buffer (gen s') = concat (writes s) @ buffer (gen s)
           \<and> (if isRunning (gen s)
               then interval (gen s') = Some (1000 / newRate)
                  \<and> buffer (gen s') = []
                  \<and> writes s' = (if buffer (gen s) = [] then writes s
                                  else writes s @ [buffer (gen s)])
               else interval (gen s') = interval (gen s)
                  \<and> buffer (gen s') = buffer (gen s)
                  \<and> writes s' = writes s)
           \<and> (if isRunning (gen s)
                then start ((stop s)\<lparr> gen := (gen (stop s))\<lparr> rate := newRate \<rparr> \<rparr>)
                else s\<lparr> gen := (gen s)\<lparr> rate := newRate \<rparr> \<rparr>) = s')"
  by (simp add: setRate_def stop_def start_def processBuffer_begin_def Let_def)

text \<open>The theorem of C8 on the same producer, moved from 100 to 250 records a second.\<close>

theorem setRate_restart_witness:
  "interval (gen (setRate 250 half_batch)) = Some 4
   \<and> isRunning (gen (setRate 250 half_batch))
   \<and> totalGenerated (gen (setRate 250 half_batch)) = 2
   \<and> writes (setRate 250 half_batch) = [buffer (gen half_batch)]
   \<and> buffer (gen (setRate 250 half_batch)) = []"
proof -
  have ne: "buffer (gen half_batch) \<noteq> []"
    using half_batch_facts(4) by auto
  show ?thesis
    using ne setRate_restart[of 250 half_batch]
    by (simp add: half_batch_facts Let_def)
qed

section \<open>Properties of the reconnect state machine\<close>




















section \<open>Properties of the client buffer\<close>

lemma buffer_run_snoc: "buffer_run h (es @ [e]) = buffer_step (buffer_run h es) e"
  by (simp add: buffer_run_def)

lemma ingested_snoc:
  "ingested (es @ [e]) = ingested es @ (case e of AddRecords p \<Rightarrow> recordsArray p | _ \<Rightarrow> [])"
  by (induction es rule: ingested.induct) (auto split: buffer_event.splits)

lemma slice_last_append:
  "slice_last n (slice_last n xs @ ys) = slice_last n (xs @ ys)"
proof (cases "length xs \<le> n")
  case True
  then show ?thesis by (simp add: slice_last_def)
next
  case False
  then have "length xs + length ys - (length xs - n + n) + (length xs - n)
             = length xs + length ys - n"
    by arith
  then show ?thesis by (simp add: slice_last_def)
qed

lemma slice_last_short: "length xs \<le> n \<Longrightarrow> slice_last n xs = xs"
  by (simp add: slice_last_def)

lemma reducer_add_batch:
  "records (dataBufferReducer now st (ADD_BATCH new)) = slice_last MAX_BUFFER_SIZE (records st @ new)"
  "total (dataBufferReducer now st (ADD_BATCH new)) = total st + length new"
  "stats (dataBufferReducer now st (ADD_BATCH new)) = stats st"
  by (simp_all add: Let_def slice_last_short)

lemma one_timer_initial: "one_timer (buffer_initial now)"
  by (simp add: one_timer_def buffer_initial_def)

lemma one_timer_step:
  assumes "one_timer h"
  shows "one_timer (buffer_step h e)"
  using assms
  by (cases e)
    (auto simp: one_timer_def addRecords_def clearTimeout_def commit_def updateStats_def
      clearData_def setFilter_def Let_def split: list.splits option.splits if_splits)

lemma one_timer_run: "one_timer (buffer_run (buffer_initial now) es)"
  by (induction es rule: rev_induct)
    (simp_all add: buffer_run_def one_timer_initial one_timer_step)

lemma run_accounts:
  assumes "\<forall>e \<in> set es. \<not> is_clear e"
  shows "\<exists>committed.
           committed @ pendingBatchRef (buffer_run (buffer_initial t0) es) = ingested es
         \<and> records (state (buffer_run (buffer_initial t0) es)) = slice_last MAX_BUFFER_SIZE committed
         \<and> total (state (buffer_run (buffer_initial t0) es)) = length committed
         \<and> (pendingBatchRef (buffer_run (buffer_initial t0) es) = []
              \<or> buf_timeouts (buffer_run (buffer_initial t0) es) \<noteq> [])"
  using assms
proof (induction es rule: rev_induct)
  case Nil
  then show ?case
    by (simp add: buffer_run_def buffer_initial_def initialState_def slice_last_def)
next
  case (snoc e es)
  let ?h = "buffer_run (buffer_initial t0) es"
  from snoc obtain committed where
    acc: "committed @ pendingBatchRef ?h = ingested es"
    and recs: "records (state ?h) = slice_last MAX_BUFFER_SIZE committed"
    and tot: "total (state ?h) = length committed"
    and sched: "pendingBatchRef ?h = [] \<or> buf_timeouts ?h \<noteq> []"
    by auto
  show ?case
  proof (cases e)
    case (AddRecords p)
    then show ?thesis using acc recs tot
      by (intro exI[of _ committed])
        (simp add: buffer_run_snoc ingested_snoc addRecords_def clearTimeout_def Let_def
          split: option.splits)
  next
    case (Timeout t now)
    show ?thesis
    proof (cases "t \<in> set (buf_timeouts ?h) \<and> pendingBatchRef ?h \<noteq> []")
      case True
      have "length (committed @ pendingBatchRef ?h) = length (ingested es)"
        using acc by simp
      then have "length committed + length (pendingBatchRef ?h) = length (ingested es)"
        by simp
      with True show ?thesis using Timeout acc recs tot
        by (intro exI[of _ "committed @ pendingBatchRef ?h"])
          (simp add: buffer_run_snoc ingested_snoc commit_def clearTimeout_def
            reducer_add_batch slice_last_append del: dataBufferReducer.simps)
    next
      case False
      then show ?thesis using Timeout acc recs tot sched
        by (intro exI[of _ committed])
          (auto simp: buffer_run_snoc ingested_snoc commit_def clearTimeout_def)
    qed
  next
    case (UpdateStats st)
    then show ?thesis using acc recs tot sched
      by (intro exI[of _ committed]) (simp add: buffer_run_snoc ingested_snoc updateStats_def)
  next
    case (ClearData now)
    then show ?thesis using snoc.prems by simp
  next
    case (SetFilter f)
    then show ?thesis using acc recs tot sched
      by (intro exI[of _ committed]) (simp add: buffer_run_snoc ingested_snoc setFilter_def)
  qed
qed

text \<open>
  Claim C4.  After any run of the hook from its initial state without a clear, and once
  the scheduled commit has fired: if more than \<open>MAX_BUFFER_SIZE\<close> (5000) records were
  handed to \<open>addRecords\<close>, the store holds exactly \<open>MAX_BUFFER_SIZE\<close> records, the most
  recent ones in arrival order, nothing is left pending, and \<open>total\<close> is the number of
  records handed over.
\<close>

theorem buffer_keeps_most_recent:
  assumes "\<forall>e \<in> set es. \<not> is_clear e"
    and "MAX_BUFFER_SIZE < length (ingested es)"
  shows "(let h = fire_commit now (buffer_run (buffer_initial t0) es)
          in records (state h) = drop (length (ingested es) - MAX_BUFFER_SIZE) (ingested es)
           \<and> length (records (state h)) = MAX_BUFFER_SIZE
           \<and> total (state h) = length (ingested es)
           \<and> pendingBatchRef h = [])"
proof -
  let ?h = "buffer_run (buffer_initial t0) es"
  from run_accounts[OF assms(1), of t0] obtain committed where
    acc: "committed @ pendingBatchRef ?h = ingested es"
    and recs: "records (state ?h) = slice_last MAX_BUFFER_SIZE committed"
    and tot: "total (state ?h) = length committed"
    and sched: "pendingBatchRef ?h = [] \<or> buf_timeouts ?h \<noteq> []"
    by blast
  have fired: "records (state (fire_commit now ?h)) = slice_last MAX_BUFFER_SIZE (ingested es)
             \<and> total (state (fire_commit now ?h)) = length (ingested es)
             \<and> pendingBatchRef (fire_commit now ?h) = []"
  proof (cases "pendingBatchRef ?h = []")
    case True
    then show ?thesis using acc recs tot
      by (auto simp: fire_commit_def commit_def clearTimeout_def split: list.splits)
  next
    case False
    with sched obtain t ts where t: "buf_timeouts ?h = t # ts"
      by (cases "buf_timeouts ?h") auto
    have "length (committed @ pendingBatchRef ?h) = length (ingested es)"
      using acc by simp
    then have len: "length committed + length (pendingBatchRef ?h) = length (ingested es)"
      by simp
    show ?thesis using False t recs tot len
      by (simp add: fire_commit_def commit_def clearTimeout_def reducer_add_batch
          slice_last_append acc del: dataBufferReducer.simps)
  qed
  then show ?thesis
    using assms(2) by (simp add: Let_def slice_last_def)
qed

lemma two_bursts_facts:
  "\<forall>e \<in> set two_bursts. \<not> is_clear e" "length (ingested two_bursts) = 6000"
  by (simp_all add: two_bursts_def)

text \<open>
  The theorem of C4 on two bursts of 3000 records, the first committed before the second
  arrives: 5000 records are kept and 6000 counted.
\<close>

theorem buffer_keeps_most_recent_witness:
  "MAX_BUFFER_SIZE < length (ingested two_bursts)
   \<and> records (state (fire_commit 9 (buffer_run (buffer_initial 0) two_bursts)))
       = drop 1000 (ingested two_bursts)
   \<and> length (records (state (fire_commit 9 (buffer_run (buffer_initial 0) two_bursts)))) = 5000
   \<and> total (state (fire_commit 9 (buffer_run (buffer_initial 0) two_bursts))) = 6000"
  using two_bursts_facts buffer_keeps_most_recent[of two_bursts 9 0]
  by (simp add: MAX_BUFFER_SIZE_def Let_def)

text \<open>
  Claim C10.  In any state the hook reaches from its initial state, \<open>clearData\<close> leaves
  no records, a total of zero, no stats and nothing pending, and cancels the scheduled
  commit: no timeout is pending afterwards, so no timer event changes the cleared state.
\<close>

theorem clearData_resets_total:
  "(let h = clearData now (buffer_run (buffer_initial t0) es)
    in records (state h) = [] \<and> total (state h) = 0 \<and> stats (state h) = None
     \<and> pendingBatchRef h = [] \<and> buf_timeouts h = []
     \<and> buffer_step h (Timeout t now') = h)"
proof -
  let ?h = "buffer_run (buffer_initial t0) es"
  have "one_timer ?h" by (rule one_timer_run)
  then have "buf_timeouts (clearData now ?h) = []"
    by (auto simp: one_timer_def clearData_def clearTimeout_def Let_def
        split: list.splits option.splits)
  then show ?thesis
    by (simp add: Let_def clearData_def clearTimeout_def split: option.splits)
qed

text \<open>The theorem of C10 after the two bursts: 6000 counted records, then none.\<close>

theorem clearData_resets_total_witness:
  "total (state (clearData 9 (buffer_run (buffer_initial 0) two_bursts))) = 0
   \<and> records (state (clearData 9 (buffer_run (buffer_initial 0) two_bursts))) = []
   \<and> buf_timeouts (clearData 9 (buffer_run (buffer_initial 0) two_bursts)) = []"
  using clearData_resets_total[of 9 0 two_bursts]
  by (simp add: Let_def)

end
